theory Spec2Isabelle
  imports Main "HOL-Library.Word"
begin

section \<open>The frame buffer pool of ahab (framebuffer.cpp) and its key handler (decoderop.cpp)\<close>

text \<open>
  Pointers are addresses (\<open>nat\<close>); a nullable pointer is a \<open>nat option\<close> with \<open>None\<close> for
  \<open>NULL\<close>. Frames and handles live in two stores indexed by address. Every operation takes
  the world and returns its result together with the world it leaves behind, so that a
  C++ exception (an \<open>Inl\<close> result) keeps the writes made before it was thrown.
  The mutexes are not part of the state: each operation is run to completion by one thread.
  The condition variables appear through the broadcasts an operation issues (a log of
  events) and through the worlds a blocked thread sees at each wake-up.
\<close>

subsection \<open>Data\<close>

datatype FrameState = FREE | LOCKED | RENDERED | FREEABLE

datatype error = OutOfFrames | AhabException | AssertionFailed | NullPointer

datatype event = BroadcastFrame nat | BroadcastHandle nat

text \<open>Modelled from the spec: the Picture class (picture.hpp), of which framebuffer.cpp
  uses four read-only accessors; a Frame latches their values when it is locked.\<close>

record Picture =
  f_code_fv :: int
  f_code_bv :: int
  forward :: "nat option"
  backward :: "nat option"

text \<open>Modelled from the spec: the SliceRow class, declared in a header. Its constructor takes the
  row number and the number of rows; \<open>init\<close> latches the four motion-compensation values.\<close>

record SliceRow =
  row :: nat
  rows :: nat
  latched :: "Picture option"

definition SliceRow_new :: "nat \<Rightarrow> nat \<Rightarrow> SliceRow" where
  "SliceRow_new i mb_height = \<lparr>row = i, rows = mb_height, latched = None\<rparr>"

definition SliceRow_init :: "int \<Rightarrow> int \<Rightarrow> nat option \<Rightarrow> nat option \<Rightarrow> SliceRow \<Rightarrow> SliceRow" where
  "SliceRow_init fv bv fw bw r =
     r\<lparr>latched := Some \<lparr>f_code_fv = fv, f_code_bv = bv, forward = fw, backward = bw\<rparr>\<rparr>"

text \<open>A Frame: the intrusive list links, the state machine, the back-pointer to the handle
  that owns it. The pixel buffer's contents play no part in the pool and are left out.
  The field \<open>next\<close> of the source is \<open>next'\<close> here.\<close>

record Frame =
  width :: "32 word"
  height :: "32 word"
  slicerow :: "SliceRow list"
  handle :: "nat option"
  state :: FrameState
  prev :: "nat option"
  next' :: "nat option"

text \<open>FrameQueue: the field \<open>last\<close> of the source is \<open>last'\<close> here.\<close>

record FrameQueue =
  first :: "nat option"
  last' :: "nat option"

text \<open>The BufferPool; \<open>uint\<close> is a 32-bit word. The array \<open>frames\<close> is the list of the addresses
  of the pool's Frames. The fields \<open>width\<close> and \<open>height\<close> of the source are \<open>pool_width\<close> and
  \<open>pool_height\<close> here.\<close>

record BufferPool =
  num_frames :: "32 word"
  pool_width :: "32 word"
  pool_height :: "32 word"
  frames :: "nat list"
  free :: FrameQueue
  freeable :: FrameQueue

text \<open>A FrameHandle. The handle is built for one Picture and reads it only through the
  accessors, so \<open>pic\<close> holds the Picture's values. The lock count is a machine \<open>int\<close>: a
  32-bit word read as a signed number, so that \<open>locks++\<close> at the largest count wraps to the
  smallest, and \<open>locks > 0\<close> is the signed comparison.\<close>

record FrameHandle =
  pic :: Picture
  frame :: "nat option"
  locks :: "32 word"

text \<open>The world: the two stores, the one pool the handles refer to, and the broadcasts
  issued so far, oldest first.\<close>

record world =
  frame_heap :: "nat \<Rightarrow> Frame"
  handle_heap :: "nat \<Rightarrow> FrameHandle"
  pool :: BufferPool
  events :: "event list"

type_synonym 'a result = "(error + 'a) \<times> world"

definition upd_frame :: "nat \<Rightarrow> (Frame \<Rightarrow> Frame) \<Rightarrow> world \<Rightarrow> world" where
  "upd_frame f g s = s\<lparr>frame_heap := (frame_heap s)(f := g (frame_heap s f))\<rparr>"

definition upd_handle :: "nat \<Rightarrow> (FrameHandle \<Rightarrow> FrameHandle) \<Rightarrow> world \<Rightarrow> world" where
  "upd_handle h g s = s\<lparr>handle_heap := (handle_heap s)(h := g (handle_heap s h))\<rparr>"

definition emit :: "event \<Rightarrow> world \<Rightarrow> world" where
  "emit e s = s\<lparr>events := events s @ [e]\<rparr>"

text \<open>Modelled from the spec: the macro ahabassert (defined in a header). The spec calls
  a failed assertion a fatal invariant violation; it is the error \<open>AssertionFailed\<close>, raised
  before the statements that follow the assertion.\<close>

definition ahabassert :: "bool \<Rightarrow> world \<Rightarrow> (world \<Rightarrow> 'a result) \<Rightarrow> 'a result" where
  "ahabassert c s k = (if c then k s else (Inl AssertionFailed, s))"

subsection \<open>FrameQueue\<close>

definition FrameQueue_new :: FrameQueue where
  "FrameQueue_new = \<lparr>first = None, last' = None\<rparr>"

definition FrameQueue_add ::
  "nat \<Rightarrow> FrameQueue \<times> (nat \<Rightarrow> Frame) \<Rightarrow> FrameQueue \<times> (nat \<Rightarrow> Frame)" where
  "FrameQueue_add f = (\<lambda>(q, fr).
     let fr1 = fr(f := (fr f)\<lparr>prev := last' q, next' := None\<rparr>)
     in case last' q of
          Some l \<Rightarrow> (q\<lparr>last' := Some f\<rparr>, fr1(l := (fr1 l)\<lparr>next' := Some f\<rparr>))
        | None \<Rightarrow> (q\<lparr>first := Some f, last' := Some f\<rparr>, fr1))"

definition FrameQueue_remove ::
  "FrameQueue \<times> (nat \<Rightarrow> Frame) \<Rightarrow> nat option \<times> FrameQueue \<times> (nat \<Rightarrow> Frame)" where
  "FrameQueue_remove = (\<lambda>(q, fr).
     case first q of
       None \<Rightarrow> (None, q, fr)
     | Some r \<Rightarrow>
         let q1 = q\<lparr>first := next' (fr r)\<rparr>;
             (q2, fr2) = (case first q1 of
                            Some n \<Rightarrow> (q1, fr(n := (fr n)\<lparr>prev := None\<rparr>))
                          | None \<Rightarrow> (q1\<lparr>last' := None\<rparr>, fr))
         in (Some r, q2, fr2(r := (fr2 r)\<lparr>prev := None, next' := None\<rparr>)))"

definition FrameQueue_remove_specific ::
  "nat \<Rightarrow> FrameQueue \<times> (nat \<Rightarrow> Frame) \<Rightarrow> FrameQueue \<times> (nat \<Rightarrow> Frame)" where
  "FrameQueue_remove_specific f = (\<lambda>(q, fr).
     let (q1, fr1) = (case prev (fr f) of
                        Some p \<Rightarrow> (q, fr(p := (fr p)\<lparr>next' := next' (fr f)\<rparr>))
                      | None \<Rightarrow> (q\<lparr>first := next' (fr f)\<rparr>, fr));
         (q2, fr2) = (case next' (fr1 f) of
                        Some n \<Rightarrow> (q1, fr1(n := (fr1 n)\<lparr>prev := prev (fr1 f)\<rparr>))
                      | None \<Rightarrow> (q1\<lparr>last' := prev (fr1 f)\<rparr>, fr1))
     in (q2, fr2(f := (fr2 f)\<lparr>prev := None, next' := None\<rparr>)))"

subsection \<open>Frame\<close>

text \<open>Frame::Frame. The links \<open>prev\<close> and \<open>next\<close> are not initialised by the constructor;
  they are written by \<open>FrameQueue::add\<close> before anything reads them, and start as null here.\<close>

definition Frame_new :: "32 word \<Rightarrow> 32 word \<Rightarrow> Frame" where
  "Frame_new mb_width mb_height =
     \<lparr>width = 16 * mb_width, height = 16 * mb_height,
      slicerow = map (\<lambda>i. SliceRow_new i (unat mb_height)) [0..<unat mb_height],
      handle = None, state = FREE, prev = None, next' = None\<rparr>"

text \<open>The loop of Frame::lock initialises the rows \<open>0 .. height / 16 - 1\<close>; a Frame built by
  \<open>Frame_new\<close> has at least that many rows.\<close>

definition Frame_lock :: "nat \<Rightarrow> nat \<Rightarrow> int \<Rightarrow> int \<Rightarrow> nat option \<Rightarrow> nat option \<Rightarrow> world \<Rightarrow> unit result" where
  "Frame_lock f s_handle fv bv fw bw s =
     ahabassert (handle (frame_heap s f) = None) s (\<lambda>s.
     ahabassert (state (frame_heap s f) = FREE) s (\<lambda>s.
       (Inr (), upd_frame f (\<lambda>F.
          let F1 = F\<lparr>handle := Some s_handle, state := LOCKED\<rparr>;
              k = unat (height F1 div 16)
          in F1\<lparr>slicerow := map (SliceRow_init fv bv fw bw) (take k (slicerow F1))
                              @ drop k (slicerow F1)\<rparr>) s)))"

definition Frame_set_rendered :: "nat \<Rightarrow> world \<Rightarrow> unit result" where
  "Frame_set_rendered f s =
     ahabassert (state (frame_heap s f) = LOCKED) s (\<lambda>s.
       (Inr (), emit (BroadcastFrame f) (upd_frame f (\<lambda>F. F\<lparr>state := RENDERED\<rparr>) s)))"

definition Frame_relock :: "nat \<Rightarrow> world \<Rightarrow> unit result" where
  "Frame_relock f s =
     ahabassert (state (frame_heap s f) = FREEABLE) s (\<lambda>s.
       (Inr (), emit (BroadcastFrame f) (upd_frame f (\<lambda>F. F\<lparr>state := RENDERED\<rparr>) s)))"

definition Frame_set_freeable :: "nat \<Rightarrow> world \<Rightarrow> unit result" where
  "Frame_set_freeable f s =
     ahabassert (state (frame_heap s f) = RENDERED) s (\<lambda>s.
       (Inr (), upd_frame f (\<lambda>F. F\<lparr>state := FREEABLE\<rparr>) s))"

definition Frame_free_locked :: "nat \<Rightarrow> world \<Rightarrow> unit result" where
  "Frame_free_locked f s =
     ahabassert (state (frame_heap s f) = LOCKED) s (\<lambda>s.
       (Inr (), upd_frame f (\<lambda>F. F\<lparr>handle := None, state := FREE\<rparr>) s))"

definition FrameHandle_set_frame :: "nat \<Rightarrow> nat option \<Rightarrow> world \<Rightarrow> unit result" where
  "FrameHandle_set_frame h s_frame s =
     ahabassert (locks (handle_heap s h) = 0) s (\<lambda>s.
       (Inr (), emit (BroadcastHandle h) (upd_handle h (\<lambda>H. H\<lparr>frame := s_frame\<rparr>) s)))"

text \<open>Frame::free calls \<open>handle->set_frame(NULL)\<close>; with a null \<open>handle\<close> the call
  dereferences a null pointer, which is the error \<open>NullPointer\<close> here.\<close>

definition Frame_free :: "nat \<Rightarrow> world \<Rightarrow> unit result" where
  "Frame_free f s =
     ahabassert (state (frame_heap s f) = FREEABLE) s (\<lambda>s.
       case handle (frame_heap s f) of
         None \<Rightarrow> (Inl NullPointer, s)
       | Some h \<Rightarrow>
           (case FrameHandle_set_frame h None s of
              (Inl e, s1) \<Rightarrow> (Inl e, s1)
            | (Inr _, s1) \<Rightarrow>
                (Inr (), upd_frame f (\<lambda>F. F\<lparr>handle := None, state := FREE\<rparr>) s1)))"

subsection \<open>BufferPool\<close>

definition free_add :: "nat \<Rightarrow> world \<Rightarrow> world" where
  "free_add f s =
     (let (q, fr) = FrameQueue_add f (free (pool s), frame_heap s)
      in s\<lparr>frame_heap := fr, pool := (pool s)\<lparr>free := q\<rparr>\<rparr>)"

definition freeable_add :: "nat \<Rightarrow> world \<Rightarrow> world" where
  "freeable_add f s =
     (let (q, fr) = FrameQueue_add f (freeable (pool s), frame_heap s)
      in s\<lparr>frame_heap := fr, pool := (pool s)\<lparr>freeable := q\<rparr>\<rparr>)"

definition free_remove :: "world \<Rightarrow> nat option \<times> world" where
  "free_remove s =
     (let (r, q, fr) = FrameQueue_remove (free (pool s), frame_heap s)
      in (r, s\<lparr>frame_heap := fr, pool := (pool s)\<lparr>free := q\<rparr>\<rparr>))"

definition freeable_remove :: "world \<Rightarrow> nat option \<times> world" where
  "freeable_remove s =
     (let (r, q, fr) = FrameQueue_remove (freeable (pool s), frame_heap s)
      in (r, s\<lparr>frame_heap := fr, pool := (pool s)\<lparr>freeable := q\<rparr>\<rparr>))"

text \<open>BufferPool::BufferPool: the i-th Frame allocated gets the address i; the handles
  found in the world are the ones the caller has constructed.\<close>

definition BufferPool_new ::
  "32 word \<Rightarrow> 32 word \<Rightarrow> 32 word \<Rightarrow> (nat \<Rightarrow> FrameHandle) \<Rightarrow> world" where
  "BufferPool_new s_num_frames mb_width mb_height hs =
     fold free_add [0..<unat s_num_frames]
       \<lparr>frame_heap = (\<lambda>i. Frame_new mb_width mb_height),
        handle_heap = hs,
        pool = \<lparr>num_frames = s_num_frames,
                pool_width = 16 * mb_width, pool_height = 16 * mb_height,
                frames = [0..<unat s_num_frames],
                free = FrameQueue_new, freeable = FrameQueue_new\<rparr>,
        events = []\<rparr>"

definition BufferPool_get_free_frame :: "world \<Rightarrow> nat result" where
  "BufferPool_get_free_frame s =
     (case free_remove s of
        (Some first_free, s1) \<Rightarrow> (Inr first_free, s1)
      | (None, s1) \<Rightarrow>
          (case freeable_remove s1 of
             (None, s2) \<Rightarrow> (Inl OutOfFrames, s2)
           | (Some first_freeable, s2) \<Rightarrow>
               (case Frame_free first_freeable s2 of
                  (Inl e, s3) \<Rightarrow> (Inl e, s3)
                | (Inr _, s3) \<Rightarrow> (Inr first_freeable, s3))))"

definition BufferPool_make_freeable :: "nat \<Rightarrow> world \<Rightarrow> world" where
  "BufferPool_make_freeable f s = freeable_add f s"

definition BufferPool_make_free :: "nat \<Rightarrow> world \<Rightarrow> world" where
  "BufferPool_make_free f s = free_add f s"

definition BufferPool_remove_from_freeable :: "nat \<Rightarrow> world \<Rightarrow> world" where
  "BufferPool_remove_from_freeable f s =
     (let (q, fr) = FrameQueue_remove_specific f (freeable (pool s), frame_heap s)
      in s\<lparr>frame_heap := fr, pool := (pool s)\<lparr>freeable := q\<rparr>\<rparr>)"

subsection \<open>FrameHandle\<close>

definition FrameHandle_new :: "Picture \<Rightarrow> FrameHandle" where
  "FrameHandle_new s_pic = \<lparr>pic = s_pic, frame = None, locks = 0\<rparr>"

definition FrameHandle_increment_lockcount :: "nat \<Rightarrow> world \<Rightarrow> unit result" where
  "FrameHandle_increment_lockcount h s =
     (case frame (handle_heap s h) of
        Some f \<Rightarrow>
          if locks (handle_heap s h) = 0 then
            ahabassert (state (frame_heap s f) = FREEABLE) s (\<lambda>s.
              case Frame_relock f (BufferPool_remove_from_freeable f s) of
                (Inl e, s1) \<Rightarrow> (Inl e, s1)
              | (Inr _, s1) \<Rightarrow> (Inr (), upd_handle h (\<lambda>H. H\<lparr>locks := locks H + 1\<rparr>) s1))
          else (Inr (), upd_handle h (\<lambda>H. H\<lparr>locks := locks H + 1\<rparr>) s)
      | None \<Rightarrow>
          ahabassert (locks (handle_heap s h) = 0) s (\<lambda>s.
            case BufferPool_get_free_frame s of
              (Inl e, s1) \<Rightarrow> (Inl e, s1)
            | (Inr f, s1) \<Rightarrow>
                (let s2 = upd_handle h (\<lambda>H. H\<lparr>frame := Some f\<rparr>) s1;
                     p = pic (handle_heap s2 h)
                 in case Frame_lock f h (f_code_fv p) (f_code_bv p) (forward p) (backward p) s2 of
                      (Inl e, s3) \<Rightarrow> (Inl e, s3)
                    | (Inr _, s3) \<Rightarrow>
                        (Inr (), emit (BroadcastHandle h)
                                   (upd_handle h (\<lambda>H. H\<lparr>locks := locks H + 1\<rparr>) s3)))))"

text \<open>FrameHandle::decrement_lockcount reads \<open>frame->get_state()\<close> once the count is zero;
  with a null \<open>frame\<close> that is a null dereference, the error \<open>NullPointer\<close> here.\<close>

definition FrameHandle_decrement_lockcount :: "nat \<Rightarrow> world \<Rightarrow> unit result" where
  "FrameHandle_decrement_lockcount h s =
     ahabassert (0 <s locks (handle_heap s h)) s (\<lambda>s.
       let s1 = upd_handle h (\<lambda>H. H\<lparr>locks := locks H - 1\<rparr>) s
       in if locks (handle_heap s1 h) = 0 then
            (case frame (handle_heap s1 h) of
               None \<Rightarrow> (Inl NullPointer, s1)
             | Some f \<Rightarrow>
                 if state (frame_heap s1 f) = RENDERED then
                   Frame_set_freeable f (BufferPool_make_freeable f s1)
                 else if state (frame_heap s1 f) = LOCKED then
                   (case Frame_free_locked f (BufferPool_make_free f s1) of
                      (Inl e, s2) \<Rightarrow> (Inl e, s2)
                    | (Inr _, s2) \<Rightarrow> (Inr (), upd_handle h (\<lambda>H. H\<lparr>frame := None\<rparr>) s2))
                 else (Inl AhabException, s1))
          else (Inr (), s1))"

subsection \<open>Blocking waits\<close>

text \<open>
  \<open>pthread_cond_wait\<close> gives the mutex up, sleeps, and returns with whatever the other
  threads have made of the world meanwhile. The worlds seen at the successive wake-ups
  (spurious ones included) are the list \<open>env\<close>; a wait with no wake-up left stays blocked,
  which is the value \<open>None\<close>. A wait that returns gives the world it returned in and the
  wake-ups not consumed.
\<close>

fun Frame_wait_rendered :: "nat \<Rightarrow> world list \<Rightarrow> world \<Rightarrow> (world \<times> world list) option" where
  "Frame_wait_rendered f [] s =
     (if state (frame_heap s f) \<noteq> RENDERED then None else Some (s, []))"
| "Frame_wait_rendered f (s' # env) s =
     (if state (frame_heap s f) \<noteq> RENDERED then Frame_wait_rendered f env s'
      else Some (s, s' # env))"

fun FrameHandle_wait_rendered :: "nat \<Rightarrow> world list \<Rightarrow> world \<Rightarrow> (world \<times> world list) option" where
  "FrameHandle_wait_rendered h [] s =
     (case frame (handle_heap s h) of
        None \<Rightarrow> None
      | Some f \<Rightarrow> Frame_wait_rendered f [] s)"
| "FrameHandle_wait_rendered h (s' # env) s =
     (case frame (handle_heap s h) of
        None \<Rightarrow> FrameHandle_wait_rendered h env s'
      | Some f \<Rightarrow> Frame_wait_rendered f (s' # env) s)"

subsection \<open>The key handler (decoderop.cpp)\<close>

text \<open>
  DecoderState is declared in a header. The handler touches four of its fields; whatever
  else the class holds is the extension part of the record, so a statement about every
  \<open>DecoderState_scheme\<close> is a statement about every field. The width of \<open>current_picture\<close>
  is a parameter. The output queue behind the pointer \<open>oglq\<close> is the list of operations
  enqueued; \<open>leapfrog_enqueue\<close>, a method of that queue, is a parameter too, taken with its
  second argument fixed to the null pointer the handler passes.
\<close>

datatype displayop = FullScreenMode bool

record (overloaded) ('w :: len) DecoderState =
  fullscreen :: bool
  live :: bool
  current_picture :: "'w word"
  oglq :: "displayop list"

text \<open>The keysyms of X11's keysymdef.h.\<close>

definition XK_Left :: int where "XK_Left = 0xff51"
definition XK_Right :: int where "XK_Right = 0xff53"

text \<open>The character literals \<open>'f'\<close> and \<open>'q'\<close> are 102 and 113. The handler returns the
  state and what it wrote to stderr (the key of each \<open>key %d hit\<close> line).\<close>

definition XKey_execute ::
  "(displayop \<Rightarrow> displayop list \<Rightarrow> displayop list) \<Rightarrow> int \<Rightarrow>
   ('w :: len, 'z) DecoderState_scheme \<Rightarrow> ('w, 'z) DecoderState_scheme \<times> int list" where
  "XKey_execute leapfrog_enqueue key st =
     (if key = 102 then
        (let st1 = st\<lparr>fullscreen := \<not> fullscreen st\<rparr>
         in (st1\<lparr>oglq := leapfrog_enqueue (FullScreenMode (fullscreen st1)) (oglq st1)\<rparr>, []))
      else if key = 113 then (st\<lparr>live := False\<rparr>, [])
      else if key = XK_Left then (st\<lparr>current_picture := current_picture st - 1\<rparr>, [])
      else if key = XK_Right then (st\<lparr>current_picture := current_picture st + 1\<rparr>, [])
      else (st, [key]))"

definition DecoderShutDown_execute ::
  "('w :: len, 'z) DecoderState_scheme \<Rightarrow> ('w, 'z) DecoderState_scheme" where
  "DecoderShutDown_execute st = st\<lparr>live := False\<rparr>"

subsection \<open>What a FrameQueue holds\<close>

text \<open>
  \<open>seg nx p xs e\<close>: following the link \<open>nx\<close> from the pointer \<open>p\<close> visits exactly the frames
  \<open>xs\<close>, in that order, and ends at the pointer \<open>e\<close>. A queue holds the list \<open>xs\<close> when the
  \<open>next\<close> links lead from \<open>first\<close> through \<open>xs\<close> to null, the \<open>prev\<close> links lead from \<open>last\<close>
  through \<open>xs\<close> reversed to null, and no frame occurs twice.
\<close>

fun seg :: "(nat \<Rightarrow> nat option) \<Rightarrow> nat option \<Rightarrow> nat list \<Rightarrow> nat option \<Rightarrow> bool" where
  "seg nx p [] e = (p = e)"
| "seg nx p (x # xs) e = (p = Some x \<and> seg nx (nx x) xs e)"

definition is_queue :: "(nat \<Rightarrow> Frame) \<Rightarrow> FrameQueue \<Rightarrow> nat list \<Rightarrow> bool" where
  "is_queue fr q xs =
     (distinct xs \<and> seg (\<lambda>x. next' (fr x)) (first q) xs None
                  \<and> seg (\<lambda>x. prev (fr x)) (last' q) (rev xs) None)"

text \<open>The frames met by following at most \<open>n\<close> \<open>next\<close> links from a pointer.\<close>

fun walk :: "(nat \<Rightarrow> Frame) \<Rightarrow> nat \<Rightarrow> nat option \<Rightarrow> nat list" where
  "walk fr 0 p = []"
| "walk fr (Suc n) None = []"
| "walk fr (Suc n) (Some x) = x # walk fr n (next' (fr x))"

text \<open>Sequences of queue operations, run on the linked structure, and the reference queue
  of the specification: \<open>add\<close> appends at the tail, \<open>pop_front\<close> takes the head or gives null.\<close>

datatype qop = Add nat | Pop

fun run_queue ::
  "qop list \<Rightarrow> FrameQueue \<times> (nat \<Rightarrow> Frame) \<Rightarrow> nat option list \<times> FrameQueue \<times> (nat \<Rightarrow> Frame)" where
  "run_queue [] s = ([], s)"
| "run_queue (Add f # ops) s = run_queue ops (FrameQueue_add f s)"
| "run_queue (Pop # ops) s =
     (case FrameQueue_remove s of
        (r, s1) \<Rightarrow> (case run_queue ops s1 of (rs, s2) \<Rightarrow> (r # rs, s2)))"

fun spec_queue :: "qop list \<Rightarrow> nat list \<Rightarrow> nat option list \<times> nat list" where
  "spec_queue [] xs = ([], xs)"
| "spec_queue (Add f # ops) xs = spec_queue ops (xs @ [f])"
| "spec_queue (Pop # ops) [] = (case spec_queue ops [] of (rs, ys) \<Rightarrow> (None # rs, ys))"
| "spec_queue (Pop # ops) (x # xs) = (case spec_queue ops xs of (rs, ys) \<Rightarrow> (Some x # rs, ys))"

text \<open>An intrusive list cannot hold a frame twice: \<open>add\<close> is only for a frame not on the list.\<close>

fun adds_fresh :: "qop list \<Rightarrow> nat list \<Rightarrow> bool" where
  "adds_fresh [] xs = True"
| "adds_fresh (Add f # ops) xs = (f \<notin> set xs \<and> adds_fresh ops (xs @ [f]))"
| "adds_fresh (Pop # ops) xs = adds_fresh ops (tl xs)"

subsection \<open>Sequences of operations and the coherence of states and lists\<close>

text \<open>
  The operations a sequence may be made of: the four of the pool's clients (acquire and
  release on a handle, \<open>set_rendered\<close> on a Frame, \<open>wait_rendered\<close> on a handle) and the
  pool's own (\<open>get_free_frame\<close> and the three list operations). An operation that throws
  leaves the world as it is at the throw, and the sequence goes on from there. In a
  sequence run by one thread nothing wakes a blocked wait, so \<open>wait_rendered\<close> sees no
  other world than its own.
\<close>

datatype op = Acquire nat | Release nat | SetRendered nat | WaitRendered nat
  | GetFreeFrame | MakeFree nat | MakeFreeable nat | RemoveFromFreeable nat

fun exec :: "op \<Rightarrow> world \<Rightarrow> world" where
  "exec (Acquire h) s = snd (FrameHandle_increment_lockcount h s)"
| "exec (Release h) s = snd (FrameHandle_decrement_lockcount h s)"
| "exec (SetRendered f) s = snd (Frame_set_rendered f s)"
| "exec (WaitRendered h) s =
     (case FrameHandle_wait_rendered h [] s of Some (s', env) \<Rightarrow> s' | None \<Rightarrow> s)"
| "exec GetFreeFrame s = snd (BufferPool_get_free_frame s)"
| "exec (MakeFree f) s = BufferPool_make_free f s"
| "exec (MakeFreeable f) s = BufferPool_make_freeable f s"
| "exec (RemoveFromFreeable f) s = BufferPool_remove_from_freeable f s"

fun client_op :: "op \<Rightarrow> bool" where
  "client_op (Acquire h) = True"
| "client_op (Release h) = True"
| "client_op (SetRendered f) = True"
| "client_op (WaitRendered h) = True"
| "client_op GetFreeFrame = False"
| "client_op (MakeFree f) = False"
| "client_op (MakeFreeable f) = False"
| "client_op (RemoveFromFreeable f) = False"

definition run :: "op list \<Rightarrow> world \<Rightarrow> world" where
  "run ops s = fold exec ops s"

text \<open>A Frame is on a list when following \<open>next\<close> from the list's \<open>first\<close> meets it; a
  well-formed list of a pool of n frames is walked whole in n steps.\<close>

definition on_free :: "world \<Rightarrow> nat \<Rightarrow> bool" where
  "on_free s f =
     (f \<in> set (walk (frame_heap s) (length (frames (pool s))) (first (free (pool s)))))"

definition on_freeable :: "world \<Rightarrow> nat \<Rightarrow> bool" where
  "on_freeable s f =
     (f \<in> set (walk (frame_heap s) (length (frames (pool s))) (first (freeable (pool s)))))"

definition coherent :: "world \<Rightarrow> bool" where
  "coherent s =
     (\<forall>f\<in>set (frames (pool s)).
        (state (frame_heap s f) = FREE \<longleftrightarrow> on_free s f) \<and>
        (state (frame_heap s f) = FREEABLE \<longleftrightarrow> on_freeable s f) \<and>
        (state (frame_heap s f) \<in> {LOCKED, RENDERED} \<longleftrightarrow> \<not> on_free s f \<and> \<not> on_freeable s f) \<and>
        \<not> (on_free s f \<and> on_freeable s f))"

text \<open>The invariant behind coherence, with the lists the two queues hold made explicit:
  the queues are well formed; the free list holds exactly the FREE frames of the pool and
  the freeable list exactly the FREEABLE ones; a Frame is FREE exactly when it has no
  handle, and otherwise its handle points back at it; a handle without a Frame has no
  locks, and neither has the handle of a FREEABLE Frame. (A handle with a Frame and no
  locks need not have a FREEABLE Frame: a lock count that has wrapped all the way round
  is zero over a RENDERED Frame.)\<close>

definition queues_ok :: "nat list \<Rightarrow> nat list \<Rightarrow> world \<Rightarrow> bool" where
  "queues_ok fl al s =
     (is_queue (frame_heap s) (free (pool s)) fl \<and>
      is_queue (frame_heap s) (freeable (pool s)) al)"

definition states_rel ::
  "nat \<Rightarrow> (nat \<Rightarrow> FrameState) \<Rightarrow> nat list \<Rightarrow> nat list \<Rightarrow> bool" where
  "states_rel n st fl al =
     ((\<forall>f. f \<in> set fl \<longleftrightarrow> f < n \<and> st f = FREE) \<and>
      (\<forall>f. f \<in> set al \<longleftrightarrow> f < n \<and> st f = FREEABLE))"

definition bind_rel ::
  "nat \<Rightarrow> (nat \<Rightarrow> FrameState) \<Rightarrow> (nat \<Rightarrow> nat option) \<Rightarrow> (nat \<Rightarrow> nat option) \<Rightarrow> (nat \<Rightarrow> 32 word) \<Rightarrow> bool" where
  "bind_rel n st hn fm lk =
     ((\<forall>f<n. case hn f of
                None \<Rightarrow> st f = FREE
              | Some h \<Rightarrow> st f \<noteq> FREE \<and> fm h = Some f) \<and>
      (\<forall>h. case fm h of
              None \<Rightarrow> lk h = 0
            | Some f \<Rightarrow> f < n \<and> hn f = Some h \<and> (st f = FREEABLE \<longrightarrow> lk h = 0)))"

definition states_ok :: "nat list \<Rightarrow> nat list \<Rightarrow> world \<Rightarrow> bool" where
  "states_ok fl al s =
     (frames (pool s) = [0..<length (frames (pool s))] \<and>
      states_rel (length (frames (pool s))) (\<lambda>f. state (frame_heap s f)) fl al)"

definition bind_ok :: "world \<Rightarrow> bool" where
  "bind_ok s =
     bind_rel (length (frames (pool s)))
       (\<lambda>f. state (frame_heap s f)) (\<lambda>f. handle (frame_heap s f))
       (\<lambda>h. frame (handle_heap s h)) (\<lambda>h. locks (handle_heap s h))"

definition inv_l :: "nat list \<Rightarrow> nat list \<Rightarrow> world \<Rightarrow> bool" where
  "inv_l fl al s = (queues_ok fl al s \<and> states_ok fl al s \<and> bind_ok s)"

text \<open>What a step leaves of the binding of a handle \<open>h\<close> to a Frame \<open>f\<close>: if the handle has
  the Frame after the step it had it before, and the Frame, if it was FREEABLE, still is.\<close>

definition keeps_rel ::
  "nat \<Rightarrow> nat \<Rightarrow> (nat \<Rightarrow> FrameState) \<Rightarrow> (nat \<Rightarrow> nat option) \<Rightarrow>
   (nat \<Rightarrow> FrameState) \<Rightarrow> (nat \<Rightarrow> nat option) \<Rightarrow> bool" where
  "keeps_rel h f st fm st' fm' =
     (fm' h = Some f \<longrightarrow> fm h = Some f \<and> (st f = FREEABLE \<longrightarrow> st' f = FREEABLE))"

definition keeps :: "nat \<Rightarrow> nat \<Rightarrow> world \<Rightarrow> world \<Rightarrow> bool" where
  "keeps h f s s' =
     keeps_rel h f (\<lambda>y. state (frame_heap s y)) (\<lambda>k. frame (handle_heap s k))
       (\<lambda>y. state (frame_heap s' y)) (\<lambda>k. frame (handle_heap s' k))"

text \<open>The operations that take or give back a lock of one handle.\<close>

fun on_handle :: "nat \<Rightarrow> op \<Rightarrow> bool" where
  "on_handle h (Acquire k) = (k = h)"
| "on_handle h (Release k) = (k = h)"
| "on_handle h a = False"

subsection \<open>Example worlds\<close>

text \<open>Concrete stores and worlds on which the statements below are evaluated: a store of
  fresh frames, pools of one and of two frames with fresh handles, and the worlds met along
  acquire, \<open>set_rendered\<close>, release on handle 0.\<close>

definition frames0 :: "nat \<Rightarrow> Frame" where
  "frames0 = (\<lambda>i. Frame_new 2 2)"

text \<open>A queue that was given frames 0 and 1 and then popped: it holds frame 1, and frame 0
  is off the list with the null links \<open>remove\<close> left it.\<close>

definition queue0 :: "FrameQueue \<times> (nat \<Rightarrow> Frame)" where
  "queue0 = snd (FrameQueue_remove (FrameQueue_add 1 (FrameQueue_add 0 (FrameQueue_new, frames0))))"

definition pic0 :: Picture where
  "pic0 = \<lparr>f_code_fv = 1, f_code_bv = 1, forward = None, backward = None\<rparr>"

definition handles0 :: "nat \<Rightarrow> FrameHandle" where
  "handles0 = (\<lambda>h. FrameHandle_new pic0)"

definition pool1 :: world where "pool1 = BufferPool_new 1 2 2 handles0"

definition pool2 :: world where "pool2 = BufferPool_new 2 2 2 handles0"

definition acquired1 :: world where
  "acquired1 = snd (FrameHandle_increment_lockcount 0 pool1)"

definition rendered1 :: world where
  "rendered1 = snd (Frame_set_rendered 0 acquired1)"

definition released1 :: world where
  "released1 = snd (FrameHandle_decrement_lockcount 0 rendered1)"

text \<open>Two worlds that no sequence of client operations reaches, obtained by calling a
  Frame's transition directly: a FREEABLE Frame whose handle still holds a lock, and a
  RENDERED Frame whose handle holds none.\<close>

definition corrupted1 :: world where
  "corrupted1 = snd (Frame_set_freeable 0 rendered1)"

definition relocked1 :: world where
  "relocked1 = snd (Frame_relock 0 released1)"

text \<open>On the pool of two frames: handle 0 has rendered frame 0; then handle 0 releases it
  and handle 1 acquires the other frame.\<close>

definition rendered2 :: world where
  "rendered2 = run [Acquire 0, SetRendered 0] pool2"

definition shared2 :: world where
  "shared2 = run [Acquire 1] (exec (Release 0) rendered2)"

section \<open>Properties\<close>

subsection \<open>The intrusive list\<close>

lemma seg_append: "seg nx p (xs @ ys) e = (\<exists>m. seg nx p xs m \<and> seg nx m ys e)"
  by (induction xs arbitrary: p) auto

lemma seg_cong: "\<forall>x\<in>set xs. nx' x = nx x \<Longrightarrow> seg nx' p xs e = seg nx p xs e"
  by (induction xs arbitrary: p) auto

lemma seg_snoc: "seg nx p (xs @ [x]) e = (seg nx p xs (Some x) \<and> nx x = e)"
  by (induction xs arbitrary: p) auto

lemma is_queue_Nil: "is_queue fr q [] = (first q = None \<and> last' q = None)"
  by (simp add: is_queue_def)

lemma is_queue_frame:
  "\<forall>x\<in>set xs. next' (fr' x) = next' (fr x) \<and> prev (fr' x) = prev (fr x) \<Longrightarrow>
   first q' = first q \<Longrightarrow> last' q' = last' q \<Longrightarrow> is_queue fr' q' xs = is_queue fr q xs"
  unfolding is_queue_def
  using seg_cong[of xs "\<lambda>x. next' (fr' x)" "\<lambda>x. next' (fr x)"]
        seg_cong[of "rev xs" "\<lambda>x. prev (fr' x)" "\<lambda>x. prev (fr x)"]
  by simp

lemma is_queue_last: "is_queue fr q xs \<Longrightarrow> last' q = (if xs = [] then None else Some (last xs))"
  by (cases xs rule: rev_cases) (auto simp: is_queue_def)

lemma is_queue_first: "is_queue fr q xs \<Longrightarrow> first q = (if xs = [] then None else Some (hd xs))"
  by (cases xs) (auto simp: is_queue_def)

lemma add_queue:
  assumes q: "is_queue fr q xs" and f: "f \<notin> set xs"
    and r: "FrameQueue_add f (q, fr) = (q', fr')"
  shows "is_queue fr' q' (xs @ [f])"
proof (cases xs rule: rev_cases)
  case Nil
  with assms show ?thesis
    by (auto simp: is_queue_def FrameQueue_add_def Let_def)
next
  case (snoc ys l)
  from q snoc have l: "last' q = Some l" by (simp add: is_queue_last)
  from q snoc f have d: "l \<notin> set ys" "f \<noteq> l" "f \<notin> set ys" "distinct ys"
    by (auto simp: is_queue_def)
  from r l d have q': "first q' = first q" "last' q' = Some f"
    and fr': "fr' = fr(f := (fr f)\<lparr>prev := Some l, next' := None\<rparr>, l := (fr l)\<lparr>next' := Some f\<rparr>)"
    by (auto simp: FrameQueue_add_def Let_def)
  have n1: "seg (\<lambda>x. next' (fr' x)) (first q) ys (Some l) = seg (\<lambda>x. next' (fr x)) (first q) ys (Some l)"
    by (rule seg_cong) (use d fr' in auto)
  have p1: "seg (\<lambda>x. prev (fr' x)) (prev (fr l)) (rev ys) None = seg (\<lambda>x. prev (fr x)) (prev (fr l)) (rev ys) None"
    by (rule seg_cong) (use d fr' in auto)
  have at: "next' (fr' l) = Some f" "next' (fr' f) = None" "prev (fr' f) = Some l" "prev (fr' l) = prev (fr l)"
    using d fr' by auto
  from q snoc d show ?thesis
    by (simp add: is_queue_def seg_append q' n1 p1 at)
qed

lemma add_other:
  assumes "FrameQueue_add f (q, fr) = (q', fr')"
  shows "state (fr' y) = state (fr y)" "handle (fr' y) = handle (fr y)"
    "y \<noteq> f \<Longrightarrow> Some y \<noteq> last' q \<Longrightarrow> fr' y = fr y"
  using assms by (auto simp: FrameQueue_add_def Let_def split: option.splits)

lemma remove_empty: "first q = None \<Longrightarrow> FrameQueue_remove (q, fr) = (None, q, fr)"
  by (simp add: FrameQueue_remove_def)

lemma remove_queue:
  assumes q: "is_queue fr q (x # xs)"
    and r: "FrameQueue_remove (q, fr) = (res, q', fr')"
  shows "res = Some x \<and> is_queue fr' q' xs \<and> prev (fr' x) = None \<and> next' (fr' x) = None"
proof (cases xs)
  case Nil
  with assms show ?thesis
    by (auto simp: is_queue_def FrameQueue_remove_def Let_def split: option.splits)
next
  case (Cons y ys)
  from q Cons have fq: "first q = Some x" "next' (fr x) = Some y" 
     and d: "x \<noteq> y" "x \<notin> set ys" "y \<notin> set ys" "distinct ys"
    by (auto simp: is_queue_def)
  from r fq d have q': "first q' = Some y" "last' q' = last' q" "res = Some x"
    and fr': "fr' = fr(y := (fr y)\<lparr>prev := None\<rparr>, x := (fr x)\<lparr>prev := None, next' := None\<rparr>)"
    by (auto simp: FrameQueue_remove_def Let_def)
  have n1: "seg (\<lambda>x. next' (fr' x)) (Some y) (y # ys) None = seg (\<lambda>x. next' (fr x)) (Some y) (y # ys) None"
    by (rule seg_cong) (use d fr' in auto)
  have p1: "seg (\<lambda>x. prev (fr' x)) (last' q) (rev ys) (Some y) = seg (\<lambda>x. prev (fr x)) (last' q) (rev ys) (Some y)"
    by (rule seg_cong) (use d fr' in auto)
  have at: "prev (fr' y) = None" "prev (fr' x) = None" "next' (fr' x) = None"
    using d fr' by auto
  from q Cons d show ?thesis
    using n1 by (simp add: is_queue_def seg_append q' p1 at fq)
qed

lemma seg_start: "seg nx p xs None \<Longrightarrow> p = (if xs = [] then None else Some (hd xs))"
  by (cases xs) auto

lemma seg_unlink:
  assumes s: "seg nx p (as @ f # bs) None"
    and sb: "\<forall>x\<in>set bs. nx' x = nx x"
    and sa: "\<forall>x\<in>set (butlast as). nx' x = nx x"
    and lnk: "as \<noteq> [] \<longrightarrow> nx' (last as) = nx f"
  shows "seg nx' (if as = [] then nx f else p) (as @ bs) None"
proof -
  from s have a: "seg nx p as (Some f)" and b: "seg nx (nx f) bs None"
    by (auto simp: seg_append)
  have b': "seg nx' (nx f) bs None = seg nx (nx f) bs None"
    by (rule seg_cong) (rule sb)
  show ?thesis
  proof (cases as rule: rev_cases)
    case Nil
    with b b' show ?thesis by simp
  next
    case (snoc as' l)
    have a': "seg nx' p as' (Some l) = seg nx p as' (Some l)"
      by (rule seg_cong) (use sa snoc in simp)
    from a snoc a' b b' lnk show ?thesis
      by (auto simp: seg_append)
  qed
qed

lemma remove_specific_queue:
  assumes q: "is_queue fr q xs" and f: "f \<in> set xs"
    and r: "FrameQueue_remove_specific f (q, fr) = (q', fr')"
  shows "is_queue fr' q' (remove1 f xs)"
proof -
  from split_list_first[OF f] obtain as bs where xs: "xs = as @ f # bs" and fa: "f \<notin> set as"
    by blast
  from q xs have d: "distinct (as @ f # bs)" 
    and n: "seg (\<lambda>x. next' (fr x)) (first q) (as @ f # bs) None"
    and p: "seg (\<lambda>x. prev (fr x)) (last' q) (rev bs @ f # rev as) None"
    by (auto simp: is_queue_def)
  from p have "seg (\<lambda>x. prev (fr x)) (prev (fr f)) (rev as) None"
    by (auto simp: seg_append)
  from seg_start[OF this] have pf: "prev (fr f) = (if as = [] then None else Some (last as))"
    by (simp add: hd_rev)
  from n have "seg (\<lambda>x. next' (fr x)) (next' (fr f)) bs None"
    by (auto simp: seg_append)
  from seg_start[OF this] have nf: "next' (fr f) = (if bs = [] then None else Some (hd bs))"
    by simp
  have rm: "remove1 f xs = as @ bs" using xs fa by (simp add: remove1_append)
  have la: "as \<noteq> [] \<Longrightarrow> last as \<in> set as" and hb: "bs \<noteq> [] \<Longrightarrow> hd bs \<in> set bs"
    by auto
  have ne: "as \<noteq> [] \<Longrightarrow> last as \<noteq> f" "bs \<noteq> [] \<Longrightarrow> hd bs \<noteq> f"
    "as \<noteq> [] \<Longrightarrow> bs \<noteq> [] \<Longrightarrow> hd bs \<noteq> last as"
  proof -
    show "as \<noteq> [] \<Longrightarrow> last as \<noteq> f" using d la by auto
    show "bs \<noteq> [] \<Longrightarrow> hd bs \<noteq> f" using d hb by auto
    from d have "set as \<inter> set bs = {}" by auto
    then show "as \<noteq> [] \<Longrightarrow> bs \<noteq> [] \<Longrightarrow> hd bs \<noteq> last as" using la hb by (metis disjoint_iff)
  qed
  have q1: "first q' = (if as = [] then next' (fr f) else first q)"
    and q2: "last' q' = (if bs = [] then prev (fr f) else last' q)"
    using r pf nf ne by (auto simp: FrameQueue_remove_specific_def Let_def)
  from d have dj: "set as \<inter> set bs = {}" by auto
  have xb: "\<forall>x\<in>set bs. x \<noteq> f \<and> (as \<noteq> [] \<longrightarrow> x \<noteq> last as)"
    using d dj la by (metis disjoint_iff distinct.simps(2) distinct_append)
  have xa: "\<forall>x\<in>set as. x \<noteq> f \<and> (bs \<noteq> [] \<longrightarrow> x \<noteq> hd bs)"
    using fa dj hb by (metis disjoint_iff)
  have fr': "fr' = (\<lambda>y. if y = f then (fr f)\<lparr>prev := None, next' := None\<rparr>
                       else if as \<noteq> [] \<and> y = last as then (fr y)\<lparr>next' := next' (fr f)\<rparr>
                       else if bs \<noteq> [] \<and> y = hd bs then (fr y)\<lparr>prev := prev (fr f)\<rparr>
                       else fr y)"
  proof (cases "as = []")
    case True
    show ?thesis
    proof (cases "bs = []")
      case True
      with \<open>as = []\<close> r pf nf have e: "fr' = fr(f := (fr f)\<lparr>prev := None, next' := None\<rparr>)"
        by (auto simp: FrameQueue_remove_specific_def Let_def)
      show ?thesis unfolding e using True \<open>as = []\<close> by (auto simp: fun_eq_iff)
    next
      case False
      with \<open>as = []\<close> r pf nf ne(2)
      have e: "fr' = fr(hd bs := (fr (hd bs))\<lparr>prev := prev (fr f)\<rparr>,
                        f := (fr f)\<lparr>prev := None, next' := None\<rparr>)"
        by (auto simp: FrameQueue_remove_specific_def Let_def)
      show ?thesis unfolding e using False \<open>as = []\<close> by (auto simp: fun_eq_iff)
    qed
  next
    case False
    show ?thesis
    proof (cases "bs = []")
      case True
      with \<open>as \<noteq> []\<close> r pf nf ne(1)
      have e: "fr' = fr(last as := (fr (last as))\<lparr>next' := next' (fr f)\<rparr>,
                        f := (fr f)\<lparr>prev := None, next' := None\<rparr>)"
        by (auto simp: FrameQueue_remove_specific_def Let_def)
      show ?thesis unfolding e using True \<open>as \<noteq> []\<close> by (auto simp: fun_eq_iff)
    next
      case False
      note m = ne(1)[OF \<open>as \<noteq> []\<close>] ne(2)[OF False] ne(3)[OF \<open>as \<noteq> []\<close> False]
      from False \<open>as \<noteq> []\<close> r pf nf m
      have e: "fr' = fr(last as := (fr (last as))\<lparr>next' := next' (fr f)\<rparr>,
                        hd bs := (fr (hd bs))\<lparr>prev := prev (fr f)\<rparr>,
                        f := (fr f)\<lparr>prev := None, next' := None\<rparr>)"
        by (auto simp: FrameQueue_remove_specific_def Let_def)
      show ?thesis unfolding e using False \<open>as \<noteq> []\<close> m by (auto simp: fun_eq_iff)
    qed
  qed
  have n1: "\<forall>x\<in>set bs. next' (fr' x) = next' (fr x)"
    using xb by (auto simp: fr')
  have n2: "\<forall>x\<in>set (butlast as). next' (fr' x) = next' (fr x)"
  proof
    fix x assume x: "x \<in> set (butlast as)"
    then have "as \<noteq> []" by auto
    then have "as = butlast as @ [last as]" by simp
    with d have "distinct (butlast as @ [last as])" by (metis distinct_append)
    with x have "x \<noteq> last as" by auto
    moreover from x d have "x \<noteq> f" by (auto dest: in_set_butlastD)
    ultimately show "next' (fr' x) = next' (fr x)"
      by (auto simp: fr')
  qed
  have n3: "as \<noteq> [] \<longrightarrow> next' (fr' (last as)) = next' (fr f)"
    using ne(1) by (auto simp: fr')
  have p1: "\<forall>x\<in>set (rev as). prev (fr' x) = prev (fr x)"
    using xa by (auto simp: fr')
  have p2: "\<forall>x\<in>set (butlast (rev bs)). prev (fr' x) = prev (fr x)"
  proof
    fix x assume x: "x \<in> set (butlast (rev bs))"
    then have x': "x \<in> set (tl bs)" by (simp add: butlast_rev)
    then have "bs \<noteq> []" by auto
    then have "bs = hd bs # tl bs" by simp
    with d have "distinct (hd bs # tl bs)" by (metis distinct_append distinct.simps(2))
    with x' have "x \<noteq> hd bs" by auto
    moreover from x' \<open>bs \<noteq> []\<close> have "x \<in> set bs" by (rule_tac list.set_sel(2))
    with xb have "x \<noteq> f" by auto
    ultimately show "prev (fr' x) = prev (fr x)"
      by (auto simp: fr')
  qed
  have p3: "rev bs \<noteq> [] \<longrightarrow> prev (fr' (last (rev bs))) = prev (fr f)"
    using ne by (auto simp: fr' last_rev)
  from seg_unlink[OF n n1 n2 n3] q1
  have N: "seg (\<lambda>x. next' (fr' x)) (first q') (as @ bs) None" by simp
  from seg_unlink[OF p p1 p2 p3] q2
  have P: "seg (\<lambda>x. prev (fr' x)) (last' q') (rev (as @ bs)) None" by simp
  from d N P show ?thesis by (simp add: rm is_queue_def)
qed

lemma remove_specific_other:
  assumes "FrameQueue_remove_specific f (q, fr) = (q', fr')"
  shows "state (fr' y) = state (fr y)" "handle (fr' y) = handle (fr y)"
    "y \<noteq> f \<Longrightarrow> Some y \<noteq> prev (fr f) \<Longrightarrow> Some y \<noteq> next' (fr f) \<Longrightarrow> fr' y = fr y"
  using assms by (auto simp: FrameQueue_remove_specific_def Let_def split: option.splits prod.splits)

lemma remove_other:
  assumes "FrameQueue_remove (q, fr) = (r, q', fr')"
  shows "state (fr' y) = state (fr y)" "handle (fr' y) = handle (fr y)"
    "Some y \<noteq> first q \<Longrightarrow> (\<forall>x. first q = Some x \<longrightarrow> Some y \<noteq> next' (fr x)) \<Longrightarrow> fr' y = fr y"
  using assms by (auto simp: FrameQueue_remove_def Let_def split: option.splits prod.splits)

lemma remove_nulls:
  "FrameQueue_remove (q, fr) = (Some x, q', fr') \<Longrightarrow> prev (fr' x) = None \<and> next' (fr' x) = None"
  by (auto simp: FrameQueue_remove_def Let_def split: option.splits prod.splits)

lemma run_queue_refines:
  "is_queue fr q xs \<Longrightarrow> adds_fresh ops xs \<Longrightarrow> run_queue ops (q, fr) = (rs, q', fr') \<Longrightarrow>
   rs = fst (spec_queue ops xs) \<and> is_queue fr' q' (snd (spec_queue ops xs))"
proof (induction ops arbitrary: q fr xs rs)
  case Nil
  then show ?case by simp
next
  case (Cons a ops)
  show ?case
  proof (cases a)
    case (Add f)
    obtain q1 fr1 where a: "FrameQueue_add f (q, fr) = (q1, fr1)" by (cases "FrameQueue_add f (q, fr)")
    from Cons.prems Add have "is_queue fr1 q1 (xs @ [f])" by (auto intro: add_queue[OF _ _ a])
    from Cons.IH[OF this] Cons.prems Add a show ?thesis by simp
  next
    case Pop
    obtain r q1 fr1 where p: "FrameQueue_remove (q, fr) = (r, q1, fr1)"
      by (cases "FrameQueue_remove (q, fr)") auto
    obtain rs1 where rs1: "run_queue ops (q1, fr1) = (rs1, q', fr')" "rs = r # rs1"
      using Cons.prems(3) Pop p by (auto split: prod.splits)
    show ?thesis
    proof (cases xs)
      case Nil
      with Cons.prems(1) have "first q = None" by (simp add: is_queue_def)
      with p have e: "r = None" "q1 = q" "fr1 = fr" by (simp_all add: remove_empty)
      from Cons.IH[of fr q "[]" rs1] Cons.prems Pop Nil rs1 e show ?thesis
        by (auto split: prod.splits)
    next
      case (Cons x xs')
      from remove_queue[OF _ p, of x xs'] Cons.prems(1) Cons
      have e: "r = Some x" "is_queue fr1 q1 xs'" by auto
      from Cons.IH[OF e(2) _ rs1(1)] Cons.prems(2) Pop Cons rs1 e show ?thesis
        by (auto split: prod.splits)
    qed
  qed
qed

text \<open>
  C9. FrameQueue::remove_specific checks no membership. Called on a member it unlinks it;
  called on a frame that is not on the list and whose \<open>prev\<close> and \<open>next\<close> are null, it sets
  the list's \<open>first\<close> and \<open>last\<close> to null: a non-empty list becomes the empty list and the
  frames that were on it are on no list any more.
\<close>

theorem C9_remove_specific_needs_membership:
  assumes "is_queue fr q xs" and "FrameQueue_remove_specific f (q, fr) = (q', fr')"
  shows "(f \<in> set xs \<longrightarrow> is_queue fr' q' (remove1 f xs)) \<and>
         (f \<notin> set xs \<and> prev (fr f) = None \<and> next' (fr f) = None \<longrightarrow>
            first q' = None \<and> last' q' = None \<and> fr' = fr \<and> is_queue fr' q' [] \<and>
            (xs \<noteq> [] \<longrightarrow> \<not> is_queue fr' q' xs))"
proof (intro conjI impI)
  assume "f \<in> set xs"
  then show "is_queue fr' q' (remove1 f xs)"
    by (rule remove_specific_queue[OF assms(1) _ assms(2)])
next
  assume n: "f \<notin> set xs \<and> prev (fr f) = None \<and> next' (fr f) = None"
  then have "(fr f)\<lparr>prev := None, next' := None\<rparr> = fr f"
    by (cases "fr f") simp
  with n assms(2) have e: "q' = q\<lparr>first := None, last' := None\<rparr>" "fr' = fr"
    by (auto simp: FrameQueue_remove_specific_def)
  show "first q' = None" "last' q' = None" "fr' = fr" "is_queue fr' q' []"
    by (simp_all add: e is_queue_Nil)
  show "\<not> is_queue fr' q' xs" if "xs \<noteq> []"
    using that is_queue_first[of fr' q' xs] by (auto simp: e)
qed

theorem C9_remove_specific_needs_membership_witness:
  "is_queue (snd queue0) (fst queue0) [1] \<and>
   0 \<notin> set [1::nat] \<and> prev (snd queue0 0) = None \<and> next' (snd queue0 0) = None \<and>
   first (fst (FrameQueue_remove_specific 0 queue0)) = None \<and>
   last' (fst (FrameQueue_remove_specific 0 queue0)) = None \<and>
   \<not> is_queue (snd (FrameQueue_remove_specific 0 queue0))
         (fst (FrameQueue_remove_specific 0 queue0)) [1] \<and>
   1 \<in> set [1::nat] \<and>
   is_queue (snd (FrameQueue_remove_specific 1 queue0)) (fst (FrameQueue_remove_specific 1 queue0)) []"
proof -
  have q: "is_queue (snd queue0) (fst queue0) [1]"
    by (simp add: queue0_def FrameQueue_add_def FrameQueue_remove_def FrameQueue_new_def Let_def
        is_queue_def)
  have l: "prev (snd queue0 0) = None" "next' (snd queue0 0) = None"
    by (simp_all add: queue0_def FrameQueue_add_def FrameQueue_remove_def FrameQueue_new_def Let_def)
  from C9_remove_specific_needs_membership[OF q, of 0 "fst (FrameQueue_remove_specific 0 queue0)" "snd (FrameQueue_remove_specific 0 queue0)"]
       C9_remove_specific_needs_membership[OF q, of 1 "fst (FrameQueue_remove_specific 1 queue0)" "snd (FrameQueue_remove_specific 1 queue0)"]
       q l
  show ?thesis by auto
qed

subsection \<open>Frames, pool and handles\<close>

lemmas queue_defs = FrameQueue_add_def FrameQueue_remove_def FrameQueue_remove_specific_def FrameQueue_new_def

lemmas basic_defs = upd_frame_def upd_handle_def emit_def ahabassert_def

lemmas world_defs = basic_defs free_add_def freeable_add_def free_remove_def freeable_remove_def

lemmas frame_defs = Frame_lock_def Frame_set_rendered_def Frame_relock_def Frame_set_freeable_def
  Frame_free_locked_def Frame_free_def FrameHandle_set_frame_def

lemmas pool_defs = BufferPool_get_free_frame_def BufferPool_make_free_def BufferPool_make_freeable_def
  BufferPool_remove_from_freeable_def

lemmas handle_defs = FrameHandle_increment_lockcount_def FrameHandle_decrement_lockcount_def FrameHandle_new_def

text \<open>The lock count at its small values.\<close>

lemma locks_word [simp]:
  "(0::32 word) <s 1" "\<not> (0::32 word) <s 0" "(1::32 word) \<noteq> 0"
  "(x::32 word) - 1 = 0 \<longleftrightarrow> x = 1" "(0::32 word) + 1 = 1"
  by (simp_all add: word_sless_alt)

lemma locks_pos: "(0::32 word) <s x \<Longrightarrow> x \<noteq> 0"
  by (auto simp: word_sless_alt)

lemma pool1_eq: "pool1 =
  \<lparr>frame_heap = (\<lambda>i. Frame_new 2 2)(0 := (Frame_new 2 2)\<lparr>prev := None, next' := None\<rparr>),
   handle_heap = handles0,
   pool = \<lparr>num_frames = 1, pool_width = 32, pool_height = 32, frames = [0],
           free = \<lparr>first = Some 0, last' = Some 0\<rparr>, freeable = \<lparr>first = None, last' = None\<rparr>\<rparr>,
   events = []\<rparr>"
  by (simp add: pool1_def BufferPool_new_def queue_defs world_defs)

lemma acquired1_eq: "acquired1 =
  \<lparr>frame_heap = (\<lambda>i. Frame_new 2 2)
     (0 := (Frame_new 2 2)\<lparr>slicerow := map (SliceRow_init 1 1 None None) (slicerow (Frame_new 2 2)),
                            handle := Some 0, state := LOCKED\<rparr>),
   handle_heap = handles0(0 := \<lparr>pic = pic0, frame = Some 0, locks = 1\<rparr>),
   pool = \<lparr>num_frames = 1, pool_width = 32, pool_height = 32, frames = [0],
           free = \<lparr>first = None, last' = None\<rparr>, freeable = \<lparr>first = None, last' = None\<rparr>\<rparr>,
   events = [BroadcastHandle 0]\<rparr>"
  by (simp add: acquired1_def pool1_eq handle_defs pool_defs frame_defs queue_defs world_defs
      handles0_def Let_def Frame_new_def pic0_def)

lemma acquired1_facts:
  "state (frame_heap acquired1 0) = LOCKED" "handle (frame_heap acquired1 0) = Some 0"
  "frame (handle_heap acquired1 0) = Some 0" "locks (handle_heap acquired1 0) = 1"
  "frame (handle_heap acquired1 (Suc 0)) = None" "locks (handle_heap acquired1 (Suc 0)) = 0"
  "state (frame_heap acquired1 (Suc 0)) = FREE"
  "free (pool acquired1) = \<lparr>first = None, last' = None\<rparr>"
  "freeable (pool acquired1) = \<lparr>first = None, last' = None\<rparr>"
  by (simp_all add: acquired1_eq handles0_def FrameHandle_new_def Frame_new_def)

text \<open>
  C7. Every illegal use fails an assertion and changes nothing: locking a Frame that is
  not FREE or that has a handle, \<open>set_rendered\<close> on a Frame that is not LOCKED, \<open>relock\<close> on a
  Frame that is not FREEABLE, releasing a handle whose lock count is zero (or below), and
  \<open>set_frame\<close> on a handle that holds locks. Each returns the fatal error with the world
  exactly as it was.
\<close>

theorem C7_illegal_use_is_fatal:
  "(handle (frame_heap s f) \<noteq> None \<or> state (frame_heap s f) \<noteq> FREE \<longrightarrow>
      Frame_lock f h fv bv fw bw s = (Inl AssertionFailed, s)) \<and>
   (state (frame_heap s f) \<noteq> LOCKED \<longrightarrow> Frame_set_rendered f s = (Inl AssertionFailed, s)) \<and>
   (state (frame_heap s f) \<noteq> FREEABLE \<longrightarrow> Frame_relock f s = (Inl AssertionFailed, s)) \<and>
   (\<not> 0 <s locks (handle_heap s h) \<longrightarrow>
      FrameHandle_decrement_lockcount h s = (Inl AssertionFailed, s)) \<and>
   (locks (handle_heap s h) \<noteq> 0 \<longrightarrow> FrameHandle_set_frame h p s = (Inl AssertionFailed, s))"
  by (simp add: Frame_lock_def Frame_set_rendered_def Frame_relock_def
      FrameHandle_decrement_lockcount_def FrameHandle_set_frame_def ahabassert_def)

theorem C7_illegal_use_is_fatal_witness:
  "state (frame_heap acquired1 0) \<noteq> FREE \<and> handle (frame_heap acquired1 0) \<noteq> None \<and>
   Frame_lock 0 1 1 1 None None acquired1 = (Inl AssertionFailed, acquired1) \<and>
   state (frame_heap acquired1 1) \<noteq> LOCKED \<and>
   Frame_set_rendered 1 acquired1 = (Inl AssertionFailed, acquired1) \<and>
   state (frame_heap acquired1 0) \<noteq> FREEABLE \<and>
   Frame_relock 0 acquired1 = (Inl AssertionFailed, acquired1) \<and>
   \<not> 0 <s locks (handle_heap acquired1 1) \<and>
   FrameHandle_decrement_lockcount 1 acquired1 = (Inl AssertionFailed, acquired1) \<and>
   locks (handle_heap acquired1 0) \<noteq> 0 \<and>
   FrameHandle_set_frame 0 None acquired1 = (Inl AssertionFailed, acquired1)"
  using C7_illegal_use_is_fatal[of acquired1 0 1 1 1 None None None]
        C7_illegal_use_is_fatal[of acquired1 1 1 1 1 None None None]
        C7_illegal_use_is_fatal[of acquired1 0 0 1 1 None None None]
  by (simp add: acquired1_facts)

lemma rendered1_eq: "rendered1 =
  \<lparr>frame_heap = (\<lambda>i. Frame_new 2 2)
     (0 := (Frame_new 2 2)\<lparr>slicerow := map (SliceRow_init 1 1 None None) (slicerow (Frame_new 2 2)),
                            handle := Some 0, state := RENDERED\<rparr>),
   handle_heap = handles0(0 := \<lparr>pic = pic0, frame = Some 0, locks = 1\<rparr>),
   pool = \<lparr>num_frames = 1, pool_width = 32, pool_height = 32, frames = [0],
           free = \<lparr>first = None, last' = None\<rparr>, freeable = \<lparr>first = None, last' = None\<rparr>\<rparr>,
   events = [BroadcastHandle 0, BroadcastFrame 0]\<rparr>"
  by (simp add: rendered1_def acquired1_eq frame_defs world_defs)

lemma released1_eq: "released1 =
  \<lparr>frame_heap = (\<lambda>i. Frame_new 2 2)
     (0 := (Frame_new 2 2)\<lparr>slicerow := map (SliceRow_init 1 1 None None) (slicerow (Frame_new 2 2)),
                            handle := Some 0, state := FREEABLE\<rparr>),
   handle_heap = handles0(0 := \<lparr>pic = pic0, frame = Some 0, locks = 0\<rparr>),
   pool = \<lparr>num_frames = 1, pool_width = 32, pool_height = 32, frames = [0],
           free = \<lparr>first = None, last' = None\<rparr>, freeable = \<lparr>first = Some 0, last' = Some 0\<rparr>\<rparr>,
   events = [BroadcastHandle 0, BroadcastFrame 0]\<rparr>"
  by (simp add: released1_def rendered1_eq handle_defs pool_defs frame_defs queue_defs world_defs Frame_new_def)

text \<open>
  C5, as stated: every state transition of a Frame is followed by a broadcast on the
  Frame's \<open>activity\<close>. On a freshly built pool, \<open>lock\<close> takes frame 0 from FREE to LOCKED and
  issues no broadcast at all.
\<close>

theorem C5_lock_without_broadcast:
  "fst (Frame_lock 0 0 1 1 None None pool1) = Inr () \<and>
   state (frame_heap pool1 0) = FREE \<and>
   state (frame_heap (snd (Frame_lock 0 0 1 1 None None pool1)) 0) = LOCKED \<and>
   events (snd (Frame_lock 0 0 1 1 None None pool1)) = events pool1 \<and>
   BroadcastFrame 0 \<notin> set (events (snd (Frame_lock 0 0 1 1 None None pool1)))"
  by (simp add: pool1_eq frame_defs world_defs Frame_new_def)

text \<open>
  C5, amended: the two transitions into RENDERED, \<open>set_rendered\<close> and \<open>relock\<close>, broadcast
  on the Frame's \<open>activity\<close>; \<open>lock\<close>, \<open>set_freeable\<close> and \<open>free_locked\<close> issue no broadcast; \<open>free\<close>
  issues one broadcast, on the \<open>activity\<close> of the handle it detaches (through \<open>set_frame\<close>),
  and none on the Frame's.
\<close>

theorem C5_broadcast_on_entering_rendered:
  "(state (frame_heap s f) = LOCKED \<longrightarrow>
      fst (Frame_set_rendered f s) = Inr () \<and>
      state (frame_heap (snd (Frame_set_rendered f s)) f) = RENDERED \<and>
      events (snd (Frame_set_rendered f s)) = events s @ [BroadcastFrame f]) \<and>
   (state (frame_heap s f) = FREEABLE \<longrightarrow>
      fst (Frame_relock f s) = Inr () \<and>
      state (frame_heap (snd (Frame_relock f s)) f) = RENDERED \<and>
      events (snd (Frame_relock f s)) = events s @ [BroadcastFrame f]) \<and>
   events (snd (Frame_lock f h fv bv fw bw s)) = events s \<and>
   events (snd (Frame_set_freeable f s)) = events s \<and>
   events (snd (Frame_free_locked f s)) = events s \<and>
   (state (frame_heap s f) = FREEABLE \<and> handle (frame_heap s f) = Some h \<and>
    locks (handle_heap s h) = 0 \<longrightarrow>
      fst (Frame_free f s) = Inr () \<and>
      state (frame_heap (snd (Frame_free f s)) f) = FREE \<and>
      events (snd (Frame_free f s)) = events s @ [BroadcastHandle h])"
  by (simp add: frame_defs world_defs)

theorem C5_broadcast_on_entering_rendered_witness:
  "state (frame_heap acquired1 0) = LOCKED \<and>
   events (snd (Frame_set_rendered 0 acquired1)) = [BroadcastHandle 0, BroadcastFrame 0] \<and>
   state (frame_heap released1 0) = FREEABLE \<and> handle (frame_heap released1 0) = Some 0 \<and>
   locks (handle_heap released1 0) = 0 \<and>
   events (snd (Frame_relock 0 released1)) = [BroadcastHandle 0, BroadcastFrame 0, BroadcastFrame 0] \<and>
   events (snd (Frame_free 0 released1)) = [BroadcastHandle 0, BroadcastFrame 0, BroadcastHandle 0]"
  using C5_broadcast_on_entering_rendered[of acquired1 0 0 1 1 None None]
        C5_broadcast_on_entering_rendered[of released1 0 0 1 1 None None]
  by (simp add: acquired1_eq released1_eq)

lemma Frame_wait_rendered_returns:
  "Frame_wait_rendered f env s = Some (s', env') \<Longrightarrow>
     state (frame_heap s' f) = RENDERED \<and> s' \<in> set (s # env)"
  by (induction f env s rule: Frame_wait_rendered.induct) (auto split: if_splits)

lemma Frame_wait_rendered_live:
  "\<exists>w\<in>set (s # env). state (frame_heap w f) = RENDERED \<Longrightarrow> Frame_wait_rendered f env s \<noteq> None"
  by (induction f env s rule: Frame_wait_rendered.induct) auto

lemma Frame_wait_rendered_blocked:
  "\<forall>w\<in>set (s # env). state (frame_heap w f) \<noteq> RENDERED \<Longrightarrow> Frame_wait_rendered f env s = None"
  by (induction f env s rule: Frame_wait_rendered.induct) auto

lemma FrameHandle_wait_rendered_unbound:
  "\<forall>w\<in>set (s # env). frame (handle_heap w h) = None \<Longrightarrow> FrameHandle_wait_rendered h env s = None"
  by (induction h env s rule: FrameHandle_wait_rendered.induct) auto

lemma Frame_wait_rendered_iff:
  "Frame_wait_rendered f env s = Some (s', env') \<longleftrightarrow>
     (\<exists>pre. s # env = pre @ s' # env' \<and> (\<forall>u\<in>set pre. state (frame_heap u f) \<noteq> RENDERED) \<and>
            state (frame_heap s' f) = RENDERED)"
proof (induction env arbitrary: s)
  case Nil
  show ?case
  proof (cases "state (frame_heap s f) = RENDERED")
    case True
    then show ?thesis by (auto simp: Cons_eq_append_conv)
  next
    case False
    then show ?thesis by (auto simp: Cons_eq_append_conv)
  qed
next
  case (Cons s1 env1)
  show ?case
  proof (cases "state (frame_heap s f) = RENDERED")
    case True
    then show ?thesis by (auto simp: Cons_eq_append_conv)
  next
    case False
    have "(\<exists>pre. s # s1 # env1 = pre @ s' # env' \<and> (\<forall>u\<in>set pre. state (frame_heap u f) \<noteq> RENDERED) \<and>
            state (frame_heap s' f) = RENDERED) \<longleftrightarrow>
          (\<exists>pre1. s1 # env1 = pre1 @ s' # env' \<and> (\<forall>u\<in>set pre1. state (frame_heap u f) \<noteq> RENDERED) \<and>
            state (frame_heap s' f) = RENDERED)" (is "?L \<longleftrightarrow> ?R")
    proof
      assume ?L
      then obtain pre where p: "s # s1 # env1 = pre @ s' # env'"
        "\<forall>u\<in>set pre. state (frame_heap u f) \<noteq> RENDERED" "state (frame_heap s' f) = RENDERED"
        by blast
      with False obtain pre1 where "pre = s # pre1" by (cases pre) auto
      with p show ?R by auto
    next
      assume ?R
      then obtain pre1 where p: "s1 # env1 = pre1 @ s' # env'"
        "\<forall>u\<in>set pre1. state (frame_heap u f) \<noteq> RENDERED" "state (frame_heap s' f) = RENDERED"
        by blast
      with False have "s # s1 # env1 = (s # pre1) @ s' # env' \<and>
         (\<forall>u\<in>set (s # pre1). state (frame_heap u f) \<noteq> RENDERED)" by simp
      with p(3) show ?L by blast
    qed
    with False Cons.IH[of s1] show ?thesis by simp
  qed
qed

lemma FrameHandle_wait_rendered_iff:
  "FrameHandle_wait_rendered h env s = Some r \<longleftrightarrow>
     (\<exists>pre w post g. s # env = pre @ w # post \<and> (\<forall>u\<in>set pre. frame (handle_heap u h) = None) \<and>
        frame (handle_heap w h) = Some g \<and> Frame_wait_rendered g post w = Some r)"
proof (induction env arbitrary: s)
  case Nil
  show ?case
  proof (cases "frame (handle_heap s h)")
    case None
    then show ?thesis by (auto simp: Cons_eq_append_conv)
  next
    case (Some g)
    then show ?thesis by (auto simp: Cons_eq_append_conv)
  qed
next
  case (Cons s1 env1)
  show ?case
  proof (cases "frame (handle_heap s h)")
    case (Some g)
    have "(\<exists>pre w post g. s # s1 # env1 = pre @ w # post \<and>
            (\<forall>u\<in>set pre. frame (handle_heap u h) = None) \<and>
            frame (handle_heap w h) = Some g \<and> Frame_wait_rendered g post w = Some r) \<longleftrightarrow>
          Frame_wait_rendered g (s1 # env1) s = Some r" (is "?L \<longleftrightarrow> ?R")
    proof
      assume ?L
      then obtain pre w post g' where p: "s # s1 # env1 = pre @ w # post"
        "\<forall>u\<in>set pre. frame (handle_heap u h) = None"
        "frame (handle_heap w h) = Some g'" "Frame_wait_rendered g' post w = Some r"
        by blast
      from p(1,2) Some have "pre = []" by (cases pre) auto
      with p Some show ?R by auto
    next
      assume ?R
      with Some have "s # s1 # env1 = [] @ s # (s1 # env1) \<and>
        (\<forall>u\<in>set []. frame (handle_heap u h) = None) \<and>
        frame (handle_heap s h) = Some g \<and> Frame_wait_rendered g (s1 # env1) s = Some r"
        by simp
      then show ?L by blast
    qed
    with Some show ?thesis by simp
  next
    case None
    have "(\<exists>pre w post g. s # s1 # env1 = pre @ w # post \<and>
            (\<forall>u\<in>set pre. frame (handle_heap u h) = None) \<and>
            frame (handle_heap w h) = Some g \<and> Frame_wait_rendered g post w = Some r) \<longleftrightarrow>
          (\<exists>pre w post g. s1 # env1 = pre @ w # post \<and>
            (\<forall>u\<in>set pre. frame (handle_heap u h) = None) \<and>
            frame (handle_heap w h) = Some g \<and> Frame_wait_rendered g post w = Some r)"
      (is "?L \<longleftrightarrow> ?R")
    proof
      assume ?L
      then obtain pre w post g where p: "s # s1 # env1 = pre @ w # post"
        "\<forall>u\<in>set pre. frame (handle_heap u h) = None"
        "frame (handle_heap w h) = Some g" "Frame_wait_rendered g post w = Some r"
        by blast
      from p(1,3) None obtain pre1 where "pre = s # pre1" by (cases pre) auto
      with p show ?R by auto
    next
      assume ?R
      then obtain pre w post g where p: "s1 # env1 = pre @ w # post"
        "\<forall>u\<in>set pre. frame (handle_heap u h) = None"
        "frame (handle_heap w h) = Some g" "Frame_wait_rendered g post w = Some r"
        by blast
      with None have "s # s1 # env1 = (s # pre) @ w # post \<and>
        (\<forall>u\<in>set (s # pre). frame (handle_heap u h) = None)" by simp
      with p(3,4) show ?L by blast
    qed
    with None Cons.IH[of s1] show ?thesis by simp
  qed
qed

lemma FrameHandle_wait_rendered_held:
  assumes "FrameHandle_wait_rendered h env s = Some (s', env')"
  shows "\<exists>pre w post g. s # env = pre @ w # post \<and>
           (\<forall>u\<in>set pre. frame (handle_heap u h) = None) \<and>
           frame (handle_heap w h) = Some g \<and>
           Frame_wait_rendered g post w = Some (s', env') \<and>
           state (frame_heap s' g) = RENDERED \<and> s' \<in> set (w # post) \<and>
           ((\<forall>u\<in>set post. handle_heap u h = handle_heap w h) \<longrightarrow>
              frame (handle_heap s' h) = Some g \<and>
              locks (handle_heap s' h) = locks (handle_heap w h))"
proof -
  from assms obtain pre w post g where p: "s # env = pre @ w # post"
    "\<forall>u\<in>set pre. frame (handle_heap u h) = None"
    "frame (handle_heap w h) = Some g" "Frame_wait_rendered g post w = Some (s', env')"
    unfolding FrameHandle_wait_rendered_iff by blast
  from Frame_wait_rendered_returns[OF p(4)]
  have r: "state (frame_heap s' g) = RENDERED" "s' \<in> set (w # post)" by simp_all
  have "(\<forall>u\<in>set post. handle_heap u h = handle_heap w h) \<longrightarrow>
              frame (handle_heap s' h) = Some g \<and>
              locks (handle_heap s' h) = locks (handle_heap w h)"
  proof
    assume "\<forall>u\<in>set post. handle_heap u h = handle_heap w h"
    with r(2) have "handle_heap s' h = handle_heap w h" by auto
    with p(3) show "frame (handle_heap s' h) = Some g \<and>
              locks (handle_heap s' h) = locks (handle_heap w h)" by simp
  qed
  with p r show ?thesis by blast
qed

text \<open>
  C6. Frame::wait_rendered returns exactly at the first world seen in which the Frame is
  RENDERED, every world before it having the Frame in another state: it returns only in a
  world where the Frame is RENDERED, returns once such a world is seen, and stays blocked
  as long as every world seen has the Frame in another state, FREEABLE included.
  FrameHandle::wait_rendered returns exactly when the worlds seen split into worlds in
  which the handle has no Frame, then a first world \<open>w\<close> in which it has a Frame \<open>g\<close>, from
  which Frame::wait_rendered on \<open>g\<close> returns: it stays blocked while the handle has no
  Frame, the Frame waited for is the one found bound when the first wait ended, and the
  world returned in is \<open>w\<close> or a later one and has \<open>g\<close> RENDERED. The handle's mutex is held
  during the second wait, so no other thread changes the handle meanwhile; in worlds that
  leave the handle as it was in \<open>w\<close>, the handle returned to still has the Frame \<open>g\<close> and the
  lock count it had.
\<close>

theorem C6_wait_rendered_rendezvous:
  "(Frame_wait_rendered f env s = Some (s', env') \<longleftrightarrow>
      (\<exists>pre. s # env = pre @ s' # env' \<and>
             (\<forall>u\<in>set pre. state (frame_heap u f) \<noteq> RENDERED) \<and>
             state (frame_heap s' f) = RENDERED)) \<and>
   (Frame_wait_rendered f env s = Some (s', env') \<longrightarrow>
      state (frame_heap s' f) = RENDERED \<and> s' \<in> set (s # env)) \<and>
   ((\<exists>w\<in>set (s # env). state (frame_heap w f) = RENDERED) \<longrightarrow>
      Frame_wait_rendered f env s \<noteq> None) \<and>
   ((\<forall>w\<in>set (s # env). state (frame_heap w f) \<noteq> RENDERED) \<longrightarrow>
      Frame_wait_rendered f env s = None) \<and>
   ((\<forall>w\<in>set (s # env). state (frame_heap w f) = FREEABLE) \<longrightarrow>
      Frame_wait_rendered f env s = None) \<and>
   (FrameHandle_wait_rendered h env s = Some (s', env') \<longleftrightarrow>
      (\<exists>pre w post g. s # env = pre @ w # post \<and>
             (\<forall>u\<in>set pre. frame (handle_heap u h) = None) \<and>
             frame (handle_heap w h) = Some g \<and>
             Frame_wait_rendered g post w = Some (s', env'))) \<and>
   (FrameHandle_wait_rendered h env s = Some (s', env') \<longrightarrow>
      (\<exists>pre w post g. s # env = pre @ w # post \<and>
             (\<forall>u\<in>set pre. frame (handle_heap u h) = None) \<and>
             frame (handle_heap w h) = Some g \<and>
             Frame_wait_rendered g post w = Some (s', env') \<and>
             state (frame_heap s' g) = RENDERED \<and> s' \<in> set (w # post) \<and>
             ((\<forall>u\<in>set post. handle_heap u h = handle_heap w h) \<longrightarrow>
                frame (handle_heap s' h) = Some g \<and>
                locks (handle_heap s' h) = locks (handle_heap w h)))) \<and>
   ((\<forall>w\<in>set (s # env). frame (handle_heap w h) = None) \<longrightarrow>
      FrameHandle_wait_rendered h env s = None)"
proof -
  note a0 = Frame_wait_rendered_iff[of f env s s' env']
  have a: "Frame_wait_rendered f env s = Some (s', env') \<longrightarrow>
      state (frame_heap s' f) = RENDERED \<and> s' \<in> set (s # env)"
    using Frame_wait_rendered_returns by blast
  have b: "(\<exists>w\<in>set (s # env). state (frame_heap w f) = RENDERED) \<longrightarrow>
      Frame_wait_rendered f env s \<noteq> None"
    using Frame_wait_rendered_live by blast
  have c: "(\<forall>w\<in>set (s # env). state (frame_heap w f) \<noteq> RENDERED) \<longrightarrow>
      Frame_wait_rendered f env s = None"
    using Frame_wait_rendered_blocked by blast
  have d: "(\<forall>w\<in>set (s # env). state (frame_heap w f) = FREEABLE) \<longrightarrow>
      Frame_wait_rendered f env s = None"
  proof
    assume "\<forall>w\<in>set (s # env). state (frame_heap w f) = FREEABLE"
    then have "\<forall>w\<in>set (s # env). state (frame_heap w f) \<noteq> RENDERED" by simp
    then show "Frame_wait_rendered f env s = None" by (rule Frame_wait_rendered_blocked)
  qed
  note e0 = FrameHandle_wait_rendered_iff[of h env s "(s', env')"]
  have e: "FrameHandle_wait_rendered h env s = Some (s', env') \<longrightarrow>
      (\<exists>pre w post g. s # env = pre @ w # post \<and>
             (\<forall>u\<in>set pre. frame (handle_heap u h) = None) \<and>
             frame (handle_heap w h) = Some g \<and>
             Frame_wait_rendered g post w = Some (s', env') \<and>
             state (frame_heap s' g) = RENDERED \<and> s' \<in> set (w # post) \<and>
             ((\<forall>u\<in>set post. handle_heap u h = handle_heap w h) \<longrightarrow>
                frame (handle_heap s' h) = Some g \<and>
                locks (handle_heap s' h) = locks (handle_heap w h)))"
    using FrameHandle_wait_rendered_held by blast
  have g: "(\<forall>w\<in>set (s # env). frame (handle_heap w h) = None) \<longrightarrow>
      FrameHandle_wait_rendered h env s = None"
    using FrameHandle_wait_rendered_unbound by blast
  show ?thesis
    apply (intro conjI)
    apply (rule a0) apply (rule a) apply (rule b) apply (rule c) apply (rule d)
    apply (rule e0) apply (rule e) apply (rule g)
    done
qed

theorem C6_wait_rendered_rendezvous_witness:
  "Frame_wait_rendered 0 [acquired1, rendered1, released1] pool1 = Some (rendered1, [released1]) \<and>
   state (frame_heap rendered1 0) = RENDERED \<and>
   frame (handle_heap pool1 0) = None \<and>
   frame (handle_heap acquired1 0) = Some 0 \<and>
   Frame_wait_rendered 0 [rendered1, released1] acquired1 = Some (rendered1, [released1]) \<and>
   FrameHandle_wait_rendered 0 [acquired1, rendered1, released1] pool1 = Some (rendered1, [released1]) \<and>
   frame (handle_heap rendered1 0) = Some 0 \<and>
   state (frame_heap released1 0) = FREEABLE \<and>
   Frame_wait_rendered 0 [released1] released1 = None \<and>
   FrameHandle_wait_rendered 0 [] pool1 = None"
  using C6_wait_rendered_rendezvous[of 0 "[acquired1, rendered1, released1]" pool1 rendered1 "[released1]" 0]
     C6_wait_rendered_rendezvous[of 0 "[released1]" released1 rendered1 "[released1]" 0]
     C6_wait_rendered_rendezvous[of 0 "[]" pool1 rendered1 "[released1]" 0]
  by (simp add: pool1_eq acquired1_eq rendered1_eq released1_eq Frame_new_def handles0_def FrameHandle_new_def)

lemma free_remove_head:
  assumes "first (free (pool s)) = Some f"
  shows "\<exists>s'. free_remove s = (Some f, s') \<and> first (free (pool s')) = next' (frame_heap s f) \<and>
           freeable (pool s') = freeable (pool s) \<and> handle_heap s' = handle_heap s \<and>
           events s' = events s \<and> prev (frame_heap s' f) = None \<and> next' (frame_heap s' f) = None \<and>
           (\<forall>x. state (frame_heap s' x) = state (frame_heap s x) \<and>
                handle (frame_heap s' x) = handle (frame_heap s x))"
  using assms by (auto simp: free_remove_def FrameQueue_remove_def Let_def split: option.splits)

lemma free_remove_empty:
  "first (free (pool s)) = None \<Longrightarrow> free_remove s = (None, s)"
  by (simp add: free_remove_def FrameQueue_remove_def)

lemma freeable_remove_empty:
  "first (freeable (pool s)) = None \<Longrightarrow> freeable_remove s = (None, s)"
  by (simp add: freeable_remove_def FrameQueue_remove_def)

lemma freeable_remove_head:
  assumes "first (freeable (pool s)) = Some f"
  shows "\<exists>s'. freeable_remove s = (Some f, s') \<and> first (freeable (pool s')) = next' (frame_heap s f) \<and>
           free (pool s') = free (pool s) \<and> handle_heap s' = handle_heap s \<and>
           events s' = events s \<and> prev (frame_heap s' f) = None \<and> next' (frame_heap s' f) = None \<and>
           (\<forall>x. state (frame_heap s' x) = state (frame_heap s x) \<and>
                handle (frame_heap s' x) = handle (frame_heap s x))"
  using assms by (auto simp: freeable_remove_def FrameQueue_remove_def Let_def split: option.splits)

lemma freeable_add_queue:
  assumes "is_queue (frame_heap s) (freeable (pool s)) xs" "f \<notin> set xs"
  shows "is_queue (frame_heap (freeable_add f s)) (freeable (pool (freeable_add f s))) (xs @ [f])"
proof -
  obtain q' fr' where a: "FrameQueue_add f (freeable (pool s), frame_heap s) = (q', fr')"
    by (cases "FrameQueue_add f (freeable (pool s), frame_heap s)")
  from add_queue[OF assms a] a show ?thesis by (simp add: freeable_add_def)
qed

lemma free_add_queue:
  assumes "is_queue (frame_heap s) (free (pool s)) xs" "f \<notin> set xs"
  shows "is_queue (frame_heap (free_add f s)) (free (pool (free_add f s))) (xs @ [f])"
proof -
  obtain q' fr' where a: "FrameQueue_add f (free (pool s), frame_heap s) = (q', fr')"
    by (cases "FrameQueue_add f (free (pool s), frame_heap s)")
  from add_queue[OF assms a] a show ?thesis by (simp add: free_add_def)
qed

lemma freeable_add_other:
  "state (frame_heap (freeable_add f s) y) = state (frame_heap s y)"
  "handle (frame_heap (freeable_add f s) y) = handle (frame_heap s y)"
  "handle_heap (freeable_add f s) = handle_heap s"
  "events (freeable_add f s) = events s"
  "free (pool (freeable_add f s)) = free (pool s)"
  "frames (pool (freeable_add f s)) = frames (pool s)"
  by (auto simp: freeable_add_def FrameQueue_add_def Let_def split: option.splits)

lemma free_add_other:
  "state (frame_heap (free_add f s) y) = state (frame_heap s y)"
  "handle (frame_heap (free_add f s) y) = handle (frame_heap s y)"
  "handle_heap (free_add f s) = handle_heap s"
  "events (free_add f s) = events s"
  "freeable (pool (free_add f s)) = freeable (pool s)"
  "frames (pool (free_add f s)) = frames (pool s)"
  by (auto simp: free_add_def FrameQueue_add_def Let_def split: option.splits)

lemma is_queue_links:
  "(\<And>x. next' (fr' x) = next' (fr x) \<and> prev (fr' x) = prev (fr x)) \<Longrightarrow>
   is_queue fr' q xs = is_queue fr q xs"
  by (rule is_queue_frame) auto

lemma upd_frame_queue:
  "next' (g (frame_heap s f)) = next' (frame_heap s f) \<Longrightarrow>
   prev (g (frame_heap s f)) = prev (frame_heap s f) \<Longrightarrow>
   is_queue (frame_heap (upd_frame f g s)) q xs = is_queue (frame_heap s) q xs"
  by (rule is_queue_frame) (auto simp: upd_frame_def)

lemma upd_simps:
  "frame_heap (upd_frame f g s) = (frame_heap s)(f := g (frame_heap s f))"
  "handle_heap (upd_frame f g s) = handle_heap s"
  "pool (upd_frame f g s) = pool s"
  "events (upd_frame f g s) = events s"
  "frame_heap (upd_handle h k s) = frame_heap s"
  "handle_heap (upd_handle h k s) = (handle_heap s)(h := k (handle_heap s h))"
  "pool (upd_handle h k s) = pool s"
  "events (upd_handle h k s) = events s"
  "frame_heap (emit e s) = frame_heap s"
  "handle_heap (emit e s) = handle_heap s"
  "pool (emit e s) = pool s"
  "events (emit e s) = events s @ [e]"
  by (simp_all add: upd_frame_def upd_handle_def emit_def)

lemma release_rendered:
  assumes "locks (handle_heap s h) = 1" and "frame (handle_heap s h) = Some f"
    and "state (frame_heap s f) = RENDERED"
  shows "FrameHandle_decrement_lockcount h s =
    (Inr (), upd_frame f (\<lambda>F. F\<lparr>state := FREEABLE\<rparr>)
               (freeable_add f (upd_handle h (\<lambda>H. H\<lparr>locks := locks H - 1\<rparr>) s)))"
  using assms
  by (simp add: FrameHandle_decrement_lockcount_def ahabassert_def Let_def upd_simps
      BufferPool_make_freeable_def Frame_set_freeable_def freeable_add_other)

lemma release_locked:
  assumes "locks (handle_heap s h) = 1" and "frame (handle_heap s h) = Some f"
    and "state (frame_heap s f) = LOCKED"
  shows "FrameHandle_decrement_lockcount h s =
    (Inr (), upd_handle h (\<lambda>H. H\<lparr>frame := None\<rparr>)
              (upd_frame f (\<lambda>F. F\<lparr>handle := None, state := FREE\<rparr>)
               (free_add f (upd_handle h (\<lambda>H. H\<lparr>locks := locks H - 1\<rparr>) s))))"
  using assms
  by (simp add: FrameHandle_decrement_lockcount_def ahabassert_def Let_def upd_simps
      BufferPool_make_free_def Frame_free_locked_def free_add_other)

text \<open>
  C3. A release that takes the lock count of a handle from 1 to 0. If the bound Frame is
  RENDERED it is appended to the freeable list and becomes FREEABLE, and the handle keeps
  its frame pointer. If it is LOCKED it is appended to the free list and becomes FREE with
  its handle back-pointer cleared, and the handle's frame pointer is set to null. In any
  other state the release throws AhabException.
\<close>

theorem C3_final_release:
  assumes "locks (handle_heap s h) = 1" and "frame (handle_heap s h) = Some f"
  shows
  "(state (frame_heap s f) = RENDERED \<and>
    is_queue (frame_heap s) (freeable (pool s)) xs \<and> f \<notin> set xs \<longrightarrow>
      (\<exists>s'. FrameHandle_decrement_lockcount h s = (Inr (), s') \<and>
            is_queue (frame_heap s') (freeable (pool s')) (xs @ [f]) \<and>
            free (pool s') = free (pool s) \<and>
            state (frame_heap s' f) = FREEABLE \<and>
            handle (frame_heap s' f) = handle (frame_heap s f) \<and>
            frame (handle_heap s' h) = Some f \<and> locks (handle_heap s' h) = 0)) \<and>
   (state (frame_heap s f) = LOCKED \<and>
    is_queue (frame_heap s) (free (pool s)) ys \<and> f \<notin> set ys \<longrightarrow>
      (\<exists>s'. FrameHandle_decrement_lockcount h s = (Inr (), s') \<and>
            is_queue (frame_heap s') (free (pool s')) (ys @ [f]) \<and>
            freeable (pool s') = freeable (pool s) \<and>
            state (frame_heap s' f) = FREE \<and> handle (frame_heap s' f) = None \<and>
            frame (handle_heap s' h) = None \<and> locks (handle_heap s' h) = 0)) \<and>
   (state (frame_heap s f) \<noteq> RENDERED \<and> state (frame_heap s f) \<noteq> LOCKED \<longrightarrow>
      fst (FrameHandle_decrement_lockcount h s) = Inl AhabException)"
proof (intro conjI impI)
  let ?s1 = "upd_handle h (\<lambda>H. H\<lparr>locks := locks H - 1\<rparr>) s"
  {
    assume a: "state (frame_heap s f) = RENDERED \<and>
      is_queue (frame_heap s) (freeable (pool s)) xs \<and> f \<notin> set xs"
    let ?s2 = "freeable_add f ?s1"
    let ?s3 = "upd_frame f (\<lambda>F. F\<lparr>state := FREEABLE\<rparr>) ?s2"
    from a have "is_queue (frame_heap ?s2) (freeable (pool ?s2)) (xs @ [f])"
      by (intro freeable_add_queue) (simp_all add: upd_simps)
    then have q: "is_queue (frame_heap ?s3) (freeable (pool ?s3)) (xs @ [f])"
      by (simp add: upd_frame_queue upd_simps(3))
    have r: "FrameHandle_decrement_lockcount h s = (Inr (), ?s3)"
      using assms a by (simp add: release_rendered)
    have o: "free (pool ?s3) = free (pool s)" "state (frame_heap ?s3 f) = FREEABLE"
      "handle (frame_heap ?s3 f) = handle (frame_heap s f)"
      "frame (handle_heap ?s3 h) = Some f" "locks (handle_heap ?s3 h) = 0"
      using assms by (simp_all add: upd_simps freeable_add_other)
    from q r o
    show "\<exists>s'. FrameHandle_decrement_lockcount h s = (Inr (), s') \<and>
            is_queue (frame_heap s') (freeable (pool s')) (xs @ [f]) \<and>
            free (pool s') = free (pool s) \<and>
            state (frame_heap s' f) = FREEABLE \<and>
            handle (frame_heap s' f) = handle (frame_heap s f) \<and>
            frame (handle_heap s' h) = Some f \<and> locks (handle_heap s' h) = 0"
      by blast
  }
  {
    assume a: "state (frame_heap s f) = LOCKED \<and>
      is_queue (frame_heap s) (free (pool s)) ys \<and> f \<notin> set ys"
    let ?s2 = "free_add f ?s1"
    let ?s3 = "upd_frame f (\<lambda>F. F\<lparr>handle := None, state := FREE\<rparr>) ?s2"
    let ?s4 = "upd_handle h (\<lambda>H. H\<lparr>frame := None\<rparr>) ?s3"
    from a have "is_queue (frame_heap ?s2) (free (pool ?s2)) (ys @ [f])"
      by (intro free_add_queue) (simp_all add: upd_simps)
    then have q: "is_queue (frame_heap ?s4) (free (pool ?s4)) (ys @ [f])"
      by (simp add: upd_frame_queue upd_simps(3,5,7))
    have r: "FrameHandle_decrement_lockcount h s = (Inr (), ?s4)"
      using assms a by (simp add: release_locked)
    have o: "freeable (pool ?s4) = freeable (pool s)" "state (frame_heap ?s4 f) = FREE"
      "handle (frame_heap ?s4 f) = None"
      "frame (handle_heap ?s4 h) = None" "locks (handle_heap ?s4 h) = 0"
      using assms by (simp_all add: upd_simps free_add_other)
    from q r o
    show "\<exists>s'. FrameHandle_decrement_lockcount h s = (Inr (), s') \<and>
            is_queue (frame_heap s') (free (pool s')) (ys @ [f]) \<and>
            freeable (pool s') = freeable (pool s) \<and>
            state (frame_heap s' f) = FREE \<and> handle (frame_heap s' f) = None \<and>
            frame (handle_heap s' h) = None \<and> locks (handle_heap s' h) = 0"
      by blast
  }
  {
    assume "state (frame_heap s f) \<noteq> RENDERED \<and> state (frame_heap s f) \<noteq> LOCKED"
    with assms show "fst (FrameHandle_decrement_lockcount h s) = Inl AhabException"
      by (simp add: FrameHandle_decrement_lockcount_def ahabassert_def Let_def upd_simps)
  }
qed

lemma corrupted1_facts:
  "locks (handle_heap corrupted1 0) = 1" "frame (handle_heap corrupted1 0) = Some 0"
  "state (frame_heap corrupted1 0) = FREEABLE"
  by (simp_all add: corrupted1_def rendered1_eq Frame_set_freeable_def basic_defs)

theorem C3_final_release_witness:
  "locks (handle_heap rendered1 0) = 1 \<and> frame (handle_heap rendered1 0) = Some 0 \<and>
   state (frame_heap rendered1 0) = RENDERED \<and>
   is_queue (frame_heap rendered1) (freeable (pool rendered1)) [] \<and>
   fst (FrameHandle_decrement_lockcount 0 rendered1) = Inr () \<and>
   state (frame_heap (snd (FrameHandle_decrement_lockcount 0 rendered1)) 0) = FREEABLE \<and>
   frame (handle_heap (snd (FrameHandle_decrement_lockcount 0 rendered1)) 0) = Some 0 \<and>
   locks (handle_heap acquired1 0) = 1 \<and> frame (handle_heap acquired1 0) = Some 0 \<and>
   state (frame_heap acquired1 0) = LOCKED \<and>
   is_queue (frame_heap acquired1) (free (pool acquired1)) [] \<and>
   fst (FrameHandle_decrement_lockcount 0 acquired1) = Inr () \<and>
   state (frame_heap (snd (FrameHandle_decrement_lockcount 0 acquired1)) 0) = FREE \<and>
   frame (handle_heap (snd (FrameHandle_decrement_lockcount 0 acquired1)) 0) = None \<and>
   is_queue (frame_heap (snd (FrameHandle_decrement_lockcount 0 acquired1)))
     (free (pool (snd (FrameHandle_decrement_lockcount 0 acquired1)))) [0] \<and>
   locks (handle_heap corrupted1 0) = 1 \<and> frame (handle_heap corrupted1 0) = Some 0 \<and>
   state (frame_heap corrupted1 0) = FREEABLE \<and>
   fst (FrameHandle_decrement_lockcount 0 corrupted1) = Inl AhabException"
proof -
  have r: "locks (handle_heap rendered1 0) = 1" "frame (handle_heap rendered1 0) = Some 0"
    "state (frame_heap rendered1 0) = RENDERED"
    "is_queue (frame_heap rendered1) (freeable (pool rendered1)) []"
    by (simp_all add: rendered1_eq is_queue_Nil)
  have a: "locks (handle_heap acquired1 0) = 1" "frame (handle_heap acquired1 0) = Some 0"
    "state (frame_heap acquired1 0) = LOCKED"
    "is_queue (frame_heap acquired1) (free (pool acquired1)) []"
    by (simp_all add: acquired1_eq is_queue_Nil)
  from C3_final_release[OF r(1,2), of "[]" "[]"] C3_final_release[OF a(1,2), of "[]" "[]"]
    C3_final_release[OF corrupted1_facts(1,2), of "[]" "[]"] r a corrupted1_facts
  show ?thesis by auto
qed

subsection \<open>The coherence invariant\<close>

lemma is_queue_mem_last: "is_queue fr q xs \<Longrightarrow> last' q = Some l \<Longrightarrow> l \<in> set xs"
  by (cases xs rule: rev_cases) (auto simp: is_queue_def)

lemma add_footprint:
  assumes "is_queue fr q xs" "FrameQueue_add f (q, fr) = (q', fr')" "y \<noteq> f" "y \<notin> set xs"
  shows "fr' y = fr y"
  using assms is_queue_mem_last[OF assms(1)]
  by (auto simp: FrameQueue_add_def Let_def split: option.splits)

lemma seg_next_mem: "seg nx p (x # xs) None \<Longrightarrow> nx x = Some y \<Longrightarrow> y \<in> set xs"
  by (cases xs) auto

lemma remove_footprint:
  assumes "is_queue fr q xs" "FrameQueue_remove (q, fr) = (r, q', fr')" "y \<notin> set xs"
  shows "fr' y = fr y"
proof (cases xs)
  case Nil
  with assms show ?thesis by (simp add: is_queue_Nil remove_empty)
next
  case (Cons x xs')
  with assms(1) have f: "first q = Some x" and s: "seg (\<lambda>x. next' (fr x)) (Some x) (x # xs') None"
    by (auto simp: is_queue_def)
  from seg_next_mem[OF s] have "\<And>z. next' (fr x) = Some z \<Longrightarrow> z \<in> set xs'" by simp
  with assms Cons f show ?thesis
    by (auto simp: FrameQueue_remove_def Let_def split: option.splits)
qed

lemma is_queue_next_mem:
  assumes "is_queue fr q xs" "f \<in> set xs" "next' (fr f) = Some y"
  shows "y \<in> set xs"
proof -
  from split_list[OF assms(2)] obtain as bs where xs: "xs = as @ f # bs" by blast
  with assms(1) have "seg (\<lambda>x. next' (fr x)) (Some f) (f # bs) None"
    by (auto simp: is_queue_def seg_append)
  from seg_next_mem[OF this] assms(3) xs show ?thesis by simp
qed

lemma is_queue_prev_mem:
  assumes "is_queue fr q xs" "f \<in> set xs" "prev (fr f) = Some y"
  shows "y \<in> set xs"
proof -
  from split_list[OF assms(2)] obtain as bs where xs: "xs = as @ f # bs" by blast
  with assms(1) have "seg (\<lambda>x. prev (fr x)) (Some f) (f # rev as) None"
    by (auto simp: is_queue_def seg_append)
  from seg_next_mem[OF this] assms(3) xs show ?thesis by simp
qed

lemma remove_specific_footprint:
  assumes "is_queue fr q xs" "f \<in> set xs" "FrameQueue_remove_specific f (q, fr) = (q', fr')"
    "y \<notin> set xs"
  shows "fr' y = fr y"
proof -
  have "y \<noteq> f" using assms by auto
  moreover have "Some y \<noteq> prev (fr f)" using is_queue_prev_mem[OF assms(1,2), of y] assms(4) by auto
  moreover have "Some y \<noteq> next' (fr f)" using is_queue_next_mem[OF assms(1,2), of y] assms(4) by auto
  ultimately show ?thesis by (rule remove_specific_other(3)[OF assms(3)])
qed

lemma is_queue_same:
  "is_queue fr q xs \<Longrightarrow> \<forall>y\<in>set xs. fr' y = fr y \<Longrightarrow> is_queue fr' q xs"
  using is_queue_frame[of xs fr' fr q q] by simp

lemma seg_walk: "seg (\<lambda>x. next' (fr x)) p xs None \<Longrightarrow> length xs \<le> n \<Longrightarrow> walk fr n p = xs"
proof (induction xs arbitrary: p n)
  case Nil
  then show ?case by (cases n) auto
next
  case (Cons x xs)
  then show ?case by (cases n) auto
qed

lemma distinct_bounded_length:
  assumes "distinct xs" "\<forall>x\<in>set xs. x < n"
  shows "length xs \<le> (n::nat)"
proof -
  from assms(2) have "set xs \<subseteq> {0..<n}" by auto
  then have "card (set xs) \<le> card {0..<n}" by (intro card_mono) auto
  with assms(1) show ?thesis by (simp add: distinct_card)
qed

lemma inv_coherent:
  assumes "inv_l fl al s"
  shows "coherent s"
proof -
  let ?n = "length (frames (pool s))"
  from assms have q: "is_queue (frame_heap s) (free (pool s)) fl"
    "is_queue (frame_heap s) (freeable (pool s)) al"
    and fr: "frames (pool s) = [0..<?n]"
    and fl: "\<forall>f. f \<in> set fl \<longleftrightarrow> f < ?n \<and> state (frame_heap s f) = FREE"
    and al: "\<forall>f. f \<in> set al \<longleftrightarrow> f < ?n \<and> state (frame_heap s f) = FREEABLE"
    by (auto simp: inv_l_def queues_ok_def states_ok_def states_rel_def)
  from q fl have "length fl \<le> ?n" by (intro distinct_bounded_length) (auto simp: is_queue_def)
  with q(1) have wf: "walk (frame_heap s) ?n (first (free (pool s))) = fl"
    by (intro seg_walk) (auto simp: is_queue_def)
  from q al have "length al \<le> ?n" by (intro distinct_bounded_length) (auto simp: is_queue_def)
  with q(2) have wa: "walk (frame_heap s) ?n (first (freeable (pool s))) = al"
    by (intro seg_walk) (auto simp: is_queue_def)
  have m: "set (frames (pool s)) = {0..<?n}" by (subst fr) simp
  show ?thesis
    unfolding coherent_def on_free_def on_freeable_def wf wa m
    using fl al by (auto intro: FrameState.exhaust)
qed

text \<open>
  C2, as stated: coherence holds in every state reachable by the public operations,
  get_free_frame and the pool list operations among them. A call of get_free_frame on a
  freshly built pool of one frame takes the frame off the free list and leaves it FREE: a
  FREE frame that is on no list.
\<close>

theorem C2_get_free_frame_breaks_coherence:
  "state (frame_heap (run [GetFreeFrame] pool1) 0) = FREE \<and>
   \<not> on_free (run [GetFreeFrame] pool1) 0 \<and>
   \<not> coherent (run [GetFreeFrame] pool1)"
  by (simp add: run_def coherent_def on_free_def on_freeable_def pool1_eq pool_defs queue_defs
      world_defs Frame_new_def)

lemma free_remove_queue:
  assumes "is_queue (frame_heap s) (free (pool s)) (x # xs)"
  shows "\<exists>s'. free_remove s = (Some x, s') \<and>
           is_queue (frame_heap s') (free (pool s')) xs \<and>
           (\<forall>y. y \<notin> set (x # xs) \<longrightarrow> frame_heap s' y = frame_heap s y) \<and>
           (\<forall>y. state (frame_heap s' y) = state (frame_heap s y) \<and>
                handle (frame_heap s' y) = handle (frame_heap s y)) \<and>
           freeable (pool s') = freeable (pool s) \<and> frames (pool s') = frames (pool s) \<and>
           handle_heap s' = handle_heap s \<and> events s' = events s"
proof -
  obtain r q' fr' where a: "FrameQueue_remove (free (pool s), frame_heap s) = (r, q', fr')"
    by (cases "FrameQueue_remove (free (pool s), frame_heap s)") auto
  from remove_queue[OF assms a] remove_footprint[OF assms a] remove_other(1,2)[OF a] a
  show ?thesis by (simp add: free_remove_def)
qed

lemma freeable_remove_queue:
  assumes "is_queue (frame_heap s) (freeable (pool s)) (x # xs)"
  shows "\<exists>s'. freeable_remove s = (Some x, s') \<and>
           is_queue (frame_heap s') (freeable (pool s')) xs \<and>
           (\<forall>y. y \<notin> set (x # xs) \<longrightarrow> frame_heap s' y = frame_heap s y) \<and>
           (\<forall>y. state (frame_heap s' y) = state (frame_heap s y) \<and>
                handle (frame_heap s' y) = handle (frame_heap s y)) \<and>
           free (pool s') = free (pool s) \<and> frames (pool s') = frames (pool s) \<and>
           handle_heap s' = handle_heap s \<and> events s' = events s"
proof -
  obtain r q' fr' where a: "FrameQueue_remove (freeable (pool s), frame_heap s) = (r, q', fr')"
    by (cases "FrameQueue_remove (freeable (pool s), frame_heap s)") auto
  from remove_queue[OF assms a] remove_footprint[OF assms a] remove_other(1,2)[OF a] a
  show ?thesis by (simp add: freeable_remove_def)
qed

lemma remove_from_freeable_queue:
  assumes "is_queue (frame_heap s) (freeable (pool s)) xs" "f \<in> set xs"
  shows "is_queue (frame_heap (BufferPool_remove_from_freeable f s))
           (freeable (pool (BufferPool_remove_from_freeable f s))) (remove1 f xs) \<and>
         (\<forall>y. y \<notin> set xs \<longrightarrow> frame_heap (BufferPool_remove_from_freeable f s) y = frame_heap s y) \<and>
         (\<forall>y. state (frame_heap (BufferPool_remove_from_freeable f s) y) = state (frame_heap s y) \<and>
              handle (frame_heap (BufferPool_remove_from_freeable f s) y) = handle (frame_heap s y)) \<and>
         free (pool (BufferPool_remove_from_freeable f s)) = free (pool s) \<and>
         frames (pool (BufferPool_remove_from_freeable f s)) = frames (pool s) \<and>
         handle_heap (BufferPool_remove_from_freeable f s) = handle_heap s \<and>
         events (BufferPool_remove_from_freeable f s) = events s"
proof -
  obtain q' fr' where a: "FrameQueue_remove_specific f (freeable (pool s), frame_heap s) = (q', fr')"
    by (cases "FrameQueue_remove_specific f (freeable (pool s), frame_heap s)") auto
  from remove_specific_queue[OF assms a] remove_specific_footprint[OF assms a]
    remove_specific_other(1,2)[OF a] a
  show ?thesis by (simp add: BufferPool_remove_from_freeable_def)
qed

lemma free_add_footprint:
  assumes "is_queue (frame_heap s) (free (pool s)) xs" "y \<noteq> f" "y \<notin> set xs"
  shows "frame_heap (free_add f s) y = frame_heap s y"
proof -
  obtain q' fr' where a: "FrameQueue_add f (free (pool s), frame_heap s) = (q', fr')"
    by (cases "FrameQueue_add f (free (pool s), frame_heap s)")
  from add_footprint[OF assms(1) a assms(2,3)] a show ?thesis by (simp add: free_add_def)
qed

lemma freeable_add_footprint:
  assumes "is_queue (frame_heap s) (freeable (pool s)) xs" "y \<noteq> f" "y \<notin> set xs"
  shows "frame_heap (freeable_add f s) y = frame_heap s y"
proof -
  obtain q' fr' where a: "FrameQueue_add f (freeable (pool s), frame_heap s) = (q', fr')"
    by (cases "FrameQueue_add f (freeable (pool s), frame_heap s)")
  from add_footprint[OF assms(1) a assms(2,3)] a show ?thesis by (simp add: freeable_add_def)
qed

text \<open>The steps of the operations on the abstract relations.\<close>

lemma bind_relD:
  assumes "bind_rel n st hn fm lk"
  shows "fm h = Some f \<Longrightarrow> f < n \<and> hn f = Some h \<and> (st f = FREEABLE \<longrightarrow> lk h = 0)"
    and "fm h = None \<Longrightarrow> lk h = 0"
    and "g < n \<Longrightarrow> hn g = None \<Longrightarrow> st g = FREE"
    and "g < n \<Longrightarrow> hn g = Some k \<Longrightarrow> st g \<noteq> FREE \<and> fm k = Some g"
proof -
  from assms have a: "case fm h of None \<Rightarrow> lk h = 0
      | Some f \<Rightarrow> f < n \<and> hn f = Some h \<and> (st f = FREEABLE \<longrightarrow> lk h = 0)"
    by (simp add: bind_rel_def)
  show "fm h = Some f \<Longrightarrow> f < n \<and> hn f = Some h \<and> (st f = FREEABLE \<longrightarrow> lk h = 0)"
    using a by simp
  show "fm h = None \<Longrightarrow> lk h = 0" using a by simp
  from assms have b: "g < n \<Longrightarrow> (case hn g of None \<Rightarrow> st g = FREE
              | Some h \<Rightarrow> st g \<noteq> FREE \<and> fm h = Some g)"
    by (simp add: bind_rel_def)
  show "g < n \<Longrightarrow> hn g = None \<Longrightarrow> st g = FREE" using b by simp
  show "g < n \<Longrightarrow> hn g = Some k \<Longrightarrow> st g \<noteq> FREE \<and> fm k = Some g" using b by simp
qed

lemma bind_relI:
  assumes 1: "\<And>h f. fm h = Some f \<Longrightarrow> f < n \<and> hn f = Some h \<and> (st f = FREEABLE \<longrightarrow> lk h = 0)"
    and 2: "\<And>h. fm h = None \<Longrightarrow> lk h = 0"
    and 3: "\<And>g. g < n \<Longrightarrow> hn g = None \<Longrightarrow> st g = FREE"
    and 4: "\<And>g k. g < n \<Longrightarrow> hn g = Some k \<Longrightarrow> st g \<noteq> FREE \<and> fm k = Some g"
  shows "bind_rel n st hn fm lk"
  unfolding bind_rel_def
proof (intro conjI allI impI)
  fix f assume "f < n"
  then show "case hn f of None \<Rightarrow> st f = FREE | Some h \<Rightarrow> st f \<noteq> FREE \<and> fm h = Some f"
  proof (cases "hn f")
    case None
    with 3[OF \<open>f < n\<close> None] show ?thesis by simp
  next
    case (Some k)
    with 4[OF \<open>f < n\<close> Some] show ?thesis by simp
  qed
next
  fix h
  show "case fm h of None \<Rightarrow> lk h = 0
      | Some f \<Rightarrow> f < n \<and> hn f = Some h \<and> (st f = FREEABLE \<longrightarrow> lk h = 0)"
  proof (cases "fm h")
    case None
    with 2 show ?thesis by simp
  next
    case (Some f)
    with 1[OF Some] show ?thesis by simp
  qed
qed

text \<open>Two handles are never bound to one Frame.\<close>

lemma bind_rel_inj:
  assumes b: "bind_rel n st hn fm lk" and "fm h = Some f" "fm k = Some f"
  shows "h = k"
  using bind_relD(1)[OF b assms(2)] bind_relD(1)[OF b assms(3)] by simp

lemma rel_set_rendered:
  assumes s: "states_rel n st fl al" and b: "bind_rel n st hn fm lk" and l: "st f = LOCKED"
  shows "states_rel n (st(f := RENDERED)) fl al" "bind_rel n (st(f := RENDERED)) hn fm lk"
    "keeps_rel h0 f0 st fm (st(f := RENDERED)) fm"
proof -
  from s l show "states_rel n (st(f := RENDERED)) fl al"
    by (auto simp: states_rel_def)
  show "bind_rel n (st(f := RENDERED)) hn fm lk"
  proof (rule bind_relI)
    fix h g assume "fm h = Some g"
    from bind_relD(1)[OF b this] l
    show "g < n \<and> hn g = Some h \<and> ((st(f := RENDERED)) g = FREEABLE \<longrightarrow> lk h = 0)"
      by auto
  next
    fix h assume "fm h = None" then show "lk h = 0" by (rule bind_relD(2)[OF b])
  next
    fix g assume "g < n" "hn g = None"
    from bind_relD(3)[OF b this] l show "(st(f := RENDERED)) g = FREE" by auto
  next
    fix g k assume "g < n" "hn g = Some k"
    from bind_relD(4)[OF b this] show "(st(f := RENDERED)) g \<noteq> FREE \<and> fm k = Some g" by auto
  qed
  from l show "keeps_rel h0 f0 st fm (st(f := RENDERED)) fm"
    by (auto simp: keeps_rel_def)
qed

lemma rel_release_more:
  assumes b: "bind_rel n st hn fm lk" and l: "0 <s lk h" "lk h \<noteq> 1"
  shows "bind_rel n st hn fm (lk(h := lk h - 1))"
proof (rule bind_relI)
  fix k g assume "fm k = Some g"
  from bind_relD(1)[OF b this] locks_pos[OF l(1)]
  show "g < n \<and> hn g = Some k \<and> (st g = FREEABLE \<longrightarrow> (lk(h := lk h - 1)) k = 0)"
    by auto
next
  fix k assume "fm k = None"
  from bind_relD(2)[OF b this] locks_pos[OF l(1)] show "(lk(h := lk h - 1)) k = 0" by auto
next
  fix g assume "g < n" "hn g = None" then show "st g = FREE" by (rule bind_relD(3)[OF b])
next
  fix g k assume "g < n" "hn g = Some k" then show "st g \<noteq> FREE \<and> fm k = Some g" by (rule bind_relD(4)[OF b])
qed

lemma rel_bound:
  assumes b: "bind_rel n st hn fm lk" and l: "lk h \<noteq> 0"
  shows "\<exists>f. fm h = Some f \<and> f < n \<and> hn f = Some h \<and> (st f = RENDERED \<or> st f = LOCKED)"
proof (cases "fm h")
  case None
  from bind_relD(2)[OF b this] l show ?thesis by simp
next
  case (Some f)
  from bind_relD(1)[OF b this] l have a: "f < n" "hn f = Some h" "st f \<noteq> FREEABLE" by auto
  from bind_relD(4)[OF b a(1,2)] have "st f \<noteq> FREE" by simp
  with a Some show ?thesis by (cases "st f") auto
qed

lemma rel_release_rendered:
  assumes s: "states_rel n st fl al" and b: "bind_rel n st hn fm lk"
    and f: "fm h = Some f" and l: "lk h = 1" and r: "st f = RENDERED"
  shows "states_rel n (st(f := FREEABLE)) fl (al @ [f])"
    "bind_rel n (st(f := FREEABLE)) hn fm (lk(h := lk h - 1))"
    "keeps_rel h0 f0 st fm (st(f := FREEABLE)) fm"
proof -
  from bind_relD(1)[OF b f] have a: "f < n" "hn f = Some h" by auto
  from s r a show "states_rel n (st(f := FREEABLE)) fl (al @ [f])"
    by (auto simp: states_rel_def)
  show "bind_rel n (st(f := FREEABLE)) hn fm (lk(h := lk h - 1))"
  proof (rule bind_relI)
    fix k g assume kg: "fm k = Some g"
    from bind_relD(1)[OF b kg] bind_relD(1)[OF b f] f l r kg
    show "g < n \<and> hn g = Some k \<and> ((st(f := FREEABLE)) g = FREEABLE \<longrightarrow> (lk(h := lk h - 1)) k = 0)"
      by (cases "k = h"; cases "g = f") auto
  next
    fix k assume "fm k = None"
    from bind_relD(2)[OF b this] this f show "(lk(h := lk h - 1)) k = 0" by (cases "k = h") auto
  next
    fix g assume "g < n" "hn g = None"
    from bind_relD(3)[OF b this] this a show "(st(f := FREEABLE)) g = FREE" by (cases "g = f") auto
  next
    fix g k assume "g < n" "hn g = Some k"
    from bind_relD(4)[OF b this] show "(st(f := FREEABLE)) g \<noteq> FREE \<and> fm k = Some g" by auto
  qed
  show "keeps_rel h0 f0 st fm (st(f := FREEABLE)) fm"
    by (auto simp: keeps_rel_def)
qed

lemma rel_release_locked:
  assumes s: "states_rel n st fl al" and b: "bind_rel n st hn fm lk"
    and f: "fm h = Some f" and l: "lk h = 1" and r: "st f = LOCKED"
  shows "states_rel n (st(f := FREE)) (fl @ [f]) al"
    "bind_rel n (st(f := FREE)) (hn(f := None)) (fm(h := None)) (lk(h := lk h - 1))"
    "h \<noteq> h0 \<Longrightarrow> keeps_rel h0 f0 st fm (st(f := FREE)) (fm(h := None))"
proof -
  from bind_relD(1)[OF b f] have a: "f < n" "hn f = Some h" by auto
  from s r a show "states_rel n (st(f := FREE)) (fl @ [f]) al"
    by (auto simp: states_rel_def)
  show "bind_rel n (st(f := FREE)) (hn(f := None)) (fm(h := None)) (lk(h := lk h - 1))"
  proof (rule bind_relI)
    fix k g assume kg: "(fm(h := None)) k = Some g"
    then have kh: "k \<noteq> h" and kg': "fm k = Some g" by (auto split: if_splits)
    from bind_relD(1)[OF b kg'] a kh have "g \<noteq> f" by auto
    with bind_relD(1)[OF b kg'] kh
    show "g < n \<and> (hn(f := None)) g = Some k \<and>
          ((st(f := FREE)) g = FREEABLE \<longrightarrow> (lk(h := lk h - 1)) k = 0)"
      by auto
  next
    fix k assume "(fm(h := None)) k = None"
    then have "k = h \<or> fm k = None" by (auto split: if_splits)
    with bind_relD(2)[OF b, of k] l show "(lk(h := lk h - 1)) k = 0" by auto
  next
    fix g assume g: "g < n" "(hn(f := None)) g = None"
    show "(st(f := FREE)) g = FREE"
    proof (cases "g = f")
      case True then show ?thesis by simp
    next
      case False
      with g have "hn g = None" by simp
      from bind_relD(3)[OF b g(1) this] False show ?thesis by simp
    qed
  next
    fix g k assume g: "g < n" "(hn(f := None)) g = Some k"
    then have gf: "g \<noteq> f" and hg: "hn g = Some k" by (auto split: if_splits)
    from bind_relD(4)[OF b g(1) hg] have x: "st g \<noteq> FREE" "fm k = Some g" by auto
    with f gf have "k \<noteq> h" by auto
    with x gf show "(st(f := FREE)) g \<noteq> FREE \<and> (fm(h := None)) k = Some g" by auto
  qed
  show "keeps_rel h0 f0 st fm (st(f := FREE)) (fm(h := None))" if "h \<noteq> h0"
    using that bind_rel_inj[OF b f, of h0] by (auto simp: keeps_rel_def)
qed

lemma rel_acquire_more:
  assumes b: "bind_rel n st hn fm lk" and f: "fm h = Some f" and l: "lk h \<noteq> 0"
  shows "bind_rel n st hn fm (lk(h := lk h + 1))"
proof (rule bind_relI)
  fix k g assume kg: "fm k = Some g"
  from bind_relD(1)[OF b kg] l
  show "g < n \<and> hn g = Some k \<and> (st g = FREEABLE \<longrightarrow> (lk(h := lk h + 1)) k = 0)"
    by (cases "k = h") auto
next
  fix k assume "fm k = None"
  from bind_relD(2)[OF b this] this f show "(lk(h := lk h + 1)) k = 0" by (cases "k = h") auto
next
  fix g assume "g < n" "hn g = None" then show "st g = FREE" by (rule bind_relD(3)[OF b])
next
  fix g k assume "g < n" "hn g = Some k" then show "st g \<noteq> FREE \<and> fm k = Some g" by (rule bind_relD(4)[OF b])
qed

lemma rel_acquire_resurrect:
  assumes s: "states_rel n st fl al" and b: "bind_rel n st hn fm lk"
    and f: "fm h = Some f" and r: "st f = FREEABLE" and d: "distinct al"
  shows "lk h = 0" "f \<in> set al" "states_rel n (st(f := RENDERED)) fl (remove1 f al)"
    "bind_rel n (st(f := RENDERED)) hn fm (lk(h := lk h + 1))"
    "h \<noteq> h0 \<Longrightarrow> keeps_rel h0 f0 st fm (st(f := RENDERED)) fm"
proof -
  from bind_relD(1)[OF b f] r have a: "f < n" "hn f = Some h" "lk h = 0" by auto
  then show "lk h = 0" by simp
  from a r s show "f \<in> set al" by (auto simp: states_rel_def)
  from a r s d show "states_rel n (st(f := RENDERED)) fl (remove1 f al)"
    by (auto simp: states_rel_def)
  show "bind_rel n (st(f := RENDERED)) hn fm (lk(h := lk h + 1))"
  proof (rule bind_relI)
    fix k g assume kg: "fm k = Some g"
    from bind_relD(1)[OF b kg] a f kg
    show "g < n \<and> hn g = Some k \<and>
          ((st(f := RENDERED)) g = FREEABLE \<longrightarrow> (lk(h := lk h + 1)) k = 0)"
      by (cases "k = h"; cases "g = f") auto
  next
    fix k assume "fm k = None"
    from bind_relD(2)[OF b this] this f show "(lk(h := lk h + 1)) k = 0" by (cases "k = h") auto
  next
    fix g assume "g < n" "hn g = None"
    from bind_relD(3)[OF b this] this a show "(st(f := RENDERED)) g = FREE" by (cases "g = f") auto
  next
    fix g k assume "g < n" "hn g = Some k"
    from bind_relD(4)[OF b this] show "(st(f := RENDERED)) g \<noteq> FREE \<and> fm k = Some g" by auto
  qed
  show "keeps_rel h0 f0 st fm (st(f := RENDERED)) fm" if "h \<noteq> h0"
    using that bind_rel_inj[OF b f, of h0] by (auto simp: keeps_rel_def)
qed

lemma rel_acquire_free:
  assumes s: "states_rel n st (x # fl) al" and b: "bind_rel n st hn fm lk"
    and f: "fm h = None" and d: "distinct (x # fl)"
  shows "hn x = None" "st x = FREE" "lk h = 0"
    "states_rel n (st(x := LOCKED)) fl al"
    "bind_rel n (st(x := LOCKED)) (hn(x := Some h)) (fm(h := Some x)) (lk(h := lk h + 1))"
    "h \<noteq> h0 \<Longrightarrow> keeps_rel h0 f0 st fm (st(x := LOCKED)) (fm(h := Some x))"
proof -
  from s have a: "x < n" "st x = FREE" by (auto simp: states_rel_def)
  show hx: "hn x = None"
  proof (cases "hn x")
    case (Some k)
    from bind_relD(4)[OF b a(1) Some] a show ?thesis by simp
  qed simp
  from a show "st x = FREE" by simp
  from bind_relD(2)[OF b f] show l: "lk h = 0" .
  from a s d show "states_rel n (st(x := LOCKED)) fl al"
    by (auto simp: states_rel_def)
  show "bind_rel n (st(x := LOCKED)) (hn(x := Some h)) (fm(h := Some x)) (lk(h := lk h + 1))"
  proof (rule bind_relI)
    fix k g assume kg: "(fm(h := Some x)) k = Some g"
    show "g < n \<and> (hn(x := Some h)) g = Some k \<and>
          ((st(x := LOCKED)) g = FREEABLE \<longrightarrow> (lk(h := lk h + 1)) k = 0)"
    proof (cases "k = h")
      case True
      with kg a l show ?thesis by auto
    next
      case False
      with kg have kg': "fm k = Some g" by simp
      from bind_relD(1)[OF b kg'] hx have "g \<noteq> x" by auto
      with bind_relD(1)[OF b kg'] False show ?thesis by auto
    qed
  next
    fix k assume "(fm(h := Some x)) k = None"
    then have "k \<noteq> h" "fm k = None" by (auto split: if_splits)
    with bind_relD(2)[OF b, of k] show "(lk(h := lk h + 1)) k = 0" by auto
  next
    fix g assume g: "g < n" "(hn(x := Some h)) g = None"
    then have "g \<noteq> x" "hn g = None" by (auto split: if_splits)
    with bind_relD(3)[OF b g(1)] show "(st(x := LOCKED)) g = FREE" by auto
  next
    fix g k assume g: "g < n" "(hn(x := Some h)) g = Some k"
    show "(st(x := LOCKED)) g \<noteq> FREE \<and> (fm(h := Some x)) k = Some g"
    proof (cases "g = x")
      case True
      with g show ?thesis by auto
    next
      case False
      with g have hg: "hn g = Some k" by simp
      from bind_relD(4)[OF b g(1) hg] have y: "st g \<noteq> FREE" "fm k = Some g" by auto
      with f have "k \<noteq> h" by auto
      with y False show ?thesis by auto
    qed
  qed
  show "keeps_rel h0 f0 st fm (st(x := LOCKED)) (fm(h := Some x))" if "h \<noteq> h0"
    using that a by (auto simp: keeps_rel_def)
qed

lemma rel_acquire_evict:
  assumes s: "states_rel n st [] (x # al)" and b: "bind_rel n st hn fm lk"
    and f: "fm h = None" and d: "distinct (x # al)"
  shows "st x = FREEABLE" "lk h = 0"
    "\<exists>h'. hn x = Some h' \<and> lk h' = 0 \<and> h' \<noteq> h \<and> fm h' = Some x \<and>
       bind_rel n (st(x := LOCKED)) (hn(x := Some h)) (fm(h' := None, h := Some x)) (lk(h := lk h + 1)) \<and>
       (h \<noteq> h0 \<longrightarrow> keeps_rel h0 f0 st fm (st(x := LOCKED)) (fm(h' := None, h := Some x)))"
    "states_rel n (st(x := LOCKED)) [] al"
proof -
  from s have a: "x < n" "st x = FREEABLE" by (auto simp: states_rel_def)
  from a show "st x = FREEABLE" by simp
  from bind_relD(2)[OF b f] show l: "lk h = 0" .
  from a s d show "states_rel n (st(x := LOCKED)) [] al"
    by (auto simp: states_rel_def)
  obtain h' where hx: "hn x = Some h'"
  proof (cases "hn x")
    case None
    from bind_relD(3)[OF b a(1) None] a show ?thesis by simp
  qed blast
  from bind_relD(4)[OF b a(1) hx] have fh': "fm h' = Some x" by simp
  from bind_relD(1)[OF b fh'] a have l': "lk h' = 0" by simp
  from fh' f have ne: "h' \<noteq> h" by auto
  have B: "bind_rel n (st(x := LOCKED)) (hn(x := Some h)) (fm(h' := None, h := Some x)) (lk(h := lk h + 1))"
  proof (rule bind_relI)
    fix k g assume kg: "(fm(h' := None, h := Some x)) k = Some g"
    show "g < n \<and> (hn(x := Some h)) g = Some k \<and>
          ((st(x := LOCKED)) g = FREEABLE \<longrightarrow> (lk(h := lk h + 1)) k = 0)"
    proof (cases "k = h")
      case True
      with kg a l show ?thesis by auto
    next
      case False
      with kg have kh': "k \<noteq> h'" and kg': "fm k = Some g" by (auto split: if_splits)
      from bind_relD(1)[OF b kg'] hx kh' have "g \<noteq> x" by auto
      with bind_relD(1)[OF b kg'] False show ?thesis by auto
    qed
  next
    fix k assume k: "(fm(h' := None, h := Some x)) k = None"
    then have "k \<noteq> h" by (auto split: if_splits)
    with k have "k = h' \<or> fm k = None" by (auto split: if_splits)
    with bind_relD(2)[OF b, of k] l' \<open>k \<noteq> h\<close> show "(lk(h := lk h + 1)) k = 0" by auto
  next
    fix g assume g: "g < n" "(hn(x := Some h)) g = None"
    then have "g \<noteq> x" "hn g = None" by (auto split: if_splits)
    with bind_relD(3)[OF b g(1)] show "(st(x := LOCKED)) g = FREE" by auto
  next
    fix g k assume g: "g < n" "(hn(x := Some h)) g = Some k"
    show "(st(x := LOCKED)) g \<noteq> FREE \<and> (fm(h' := None, h := Some x)) k = Some g"
    proof (cases "g = x")
      case True
      with g show ?thesis by auto
    next
      case False
      with g have hg: "hn g = Some k" by simp
      from bind_relD(4)[OF b g(1) hg] have y: "st g \<noteq> FREE" "fm k = Some g" by auto
      with f fh' False have "k \<noteq> h" "k \<noteq> h'" by auto
      with y False show ?thesis by auto
    qed
  qed
  have K: "h \<noteq> h0 \<longrightarrow> keeps_rel h0 f0 st fm (st(x := LOCKED)) (fm(h' := None, h := Some x))"
  proof
    assume hh: "h \<noteq> h0"
    show "keeps_rel h0 f0 st fm (st(x := LOCKED)) (fm(h' := None, h := Some x))"
      unfolding keeps_rel_def
    proof (intro impI conjI)
      assume k: "(fm(h' := None, h := Some x)) h0 = Some f0"
      with hh have n: "h0 \<noteq> h'" and k': "fm h0 = Some f0" by (auto split: if_splits)
      from k' show "fm h0 = Some f0" .
      from bind_rel_inj[OF b fh', of h0] n k' have "f0 \<noteq> x" by auto
      then show "(st(x := LOCKED)) f0 = FREEABLE" if "st f0 = FREEABLE" using that by simp
    qed
  qed
  from hx l' ne fh' B K
  show "\<exists>h'. hn x = Some h' \<and> lk h' = 0 \<and> h' \<noteq> h \<and> fm h' = Some x \<and>
       bind_rel n (st(x := LOCKED)) (hn(x := Some h)) (fm(h' := None, h := Some x)) (lk(h := lk h + 1)) \<and>
       (h \<noteq> h0 \<longrightarrow> keeps_rel h0 f0 st fm (st(x := LOCKED)) (fm(h' := None, h := Some x)))"
    by blast
qed

text \<open>The steps of the operations on worlds.\<close>

lemma inv_lI:
  assumes q: "queues_ok fl al s'"
    and fr: "frames (pool s') = frames (pool s)" "frames (pool s) = [0..<length (frames (pool s))]"
    and r: "states_rel (length (frames (pool s))) st' fl al"
           "bind_rel (length (frames (pool s))) st' hn' fm' lk'"
    and p: "\<And>y. state (frame_heap s' y) = st' y" "\<And>y. handle (frame_heap s' y) = hn' y"
           "\<And>k. frame (handle_heap s' k) = fm' k" "\<And>k. locks (handle_heap s' k) = lk' k"
  shows "inv_l fl al s'"
  using q fr r unfolding inv_l_def states_ok_def bind_ok_def p by simp

lemma inv_lD:
  assumes "inv_l fl al s"
  shows "is_queue (frame_heap s) (free (pool s)) fl"
    "is_queue (frame_heap s) (freeable (pool s)) al"
    "frames (pool s) = [0..<length (frames (pool s))]"
    "states_rel (length (frames (pool s))) (\<lambda>f. state (frame_heap s f)) fl al"
    "bind_rel (length (frames (pool s))) (\<lambda>f. state (frame_heap s f)) (\<lambda>f. handle (frame_heap s f))
       (\<lambda>h. frame (handle_heap s h)) (\<lambda>h. locks (handle_heap s h))"
    "distinct fl" "distinct al" "set fl \<inter> set al = {}"
proof -
  from assms show q: "is_queue (frame_heap s) (free (pool s)) fl"
    "is_queue (frame_heap s) (freeable (pool s)) al"
    by (simp_all add: inv_l_def queues_ok_def)
  from assms show "frames (pool s) = [0..<length (frames (pool s))]"
    and s: "states_rel (length (frames (pool s))) (\<lambda>f. state (frame_heap s f)) fl al"
    by (simp_all add: inv_l_def states_ok_def)
  from assms show "bind_rel (length (frames (pool s))) (\<lambda>f. state (frame_heap s f)) (\<lambda>f. handle (frame_heap s f))
       (\<lambda>h. frame (handle_heap s h)) (\<lambda>h. locks (handle_heap s h))"
    by (simp add: inv_l_def bind_ok_def)
  from q show "distinct fl" "distinct al" by (simp_all add: is_queue_def)
  have "\<And>x. x \<in> set fl \<Longrightarrow> x \<notin> set al"
  proof
    fix x assume "x \<in> set fl" "x \<in> set al"
    with s have "state (frame_heap s x) = FREE" "state (frame_heap s x) = FREEABLE"
      unfolding states_rel_def by blast+
    then show False by simp
  qed
  then show "set fl \<inter> set al = {}" by blast
qed

lemma keepsI:
  assumes "keeps_rel h0 f0 (\<lambda>y. state (frame_heap s y)) (\<lambda>k. frame (handle_heap s k)) st' fm'"
    and p: "\<And>y. state (frame_heap s' y) = st' y" "\<And>k. frame (handle_heap s' k) = fm' k"
  shows "keeps h0 f0 s s'"
  using assms(1) unfolding keeps_def p .

lemma keeps_same:
  assumes "\<And>y. state (frame_heap s' y) = state (frame_heap s y)"
    and "\<And>k. frame (handle_heap s' k) = frame (handle_heap s k)"
  shows "keeps h0 f0 s s'"
  unfolding keeps_def assms by (simp add: keeps_rel_def)

lemma keeps_refl: "keeps h0 f0 s s"
  by (simp add: keeps_def keeps_rel_def)

lemma keeps_trans: "keeps h0 f0 s s1 \<Longrightarrow> keeps h0 f0 s1 s2 \<Longrightarrow> keeps h0 f0 s s2"
  by (auto simp: keeps_def keeps_rel_def)

lemma inv_release_rendered:
  assumes i: "inv_l fl al s" and l: "locks (handle_heap s h) = 1"
    and f: "frame (handle_heap s h) = Some f" and st: "state (frame_heap s f) = RENDERED"
  shows "inv_l fl (al @ [f]) (snd (FrameHandle_decrement_lockcount h s))"
    and "keeps h0 f0 s (snd (FrameHandle_decrement_lockcount h s))"
proof -
  let ?s1 = "upd_handle h (\<lambda>H. H\<lparr>locks := locks H - 1\<rparr>) s"
  let ?s2 = "freeable_add f ?s1"
  let ?s3 = "upd_frame f (\<lambda>F. F\<lparr>state := FREEABLE\<rparr>) ?s2"
  note d = inv_lD[OF i]
  have r: "snd (FrameHandle_decrement_lockcount h s) = ?s3"
    by (simp add: release_rendered[OF l f st])
  from d(4) st have nf: "f \<notin> set fl" "f \<notin> set al" by (auto simp: states_rel_def)
  have q1: "is_queue (frame_heap ?s1) (freeable (pool ?s1)) al" using d(2) by (simp add: upd_simps)
  have qa: "is_queue (frame_heap ?s2) (freeable (pool ?s2)) (al @ [f])"
    using q1 nf(2) by (rule freeable_add_queue)
  have "\<forall>y\<in>set fl. frame_heap ?s2 y = frame_heap s y"
  proof
    fix y assume "y \<in> set fl"
    with nf d(8) have "y \<noteq> f" "y \<notin> set al" by auto
    from freeable_add_footprint[OF q1 this] show "frame_heap ?s2 y = frame_heap s y"
      by (simp add: upd_simps)
  qed
  with d(1) have "is_queue (frame_heap ?s2) (free (pool s)) fl" by (rule is_queue_same)
  then have qf: "is_queue (frame_heap ?s2) (free (pool ?s2)) fl"
    by (simp add: freeable_add_other upd_simps)
  from qa qf have Q: "queues_ok fl (al @ [f]) ?s3"
    by (simp add: queues_ok_def upd_frame_queue upd_simps(3))
  show "inv_l fl (al @ [f]) (snd (FrameHandle_decrement_lockcount h s))" unfolding r
  proof (rule inv_lI[OF Q _ d(3) rel_release_rendered(1,2)[OF d(4,5) f l st]])
    show "frames (pool ?s3) = frames (pool s)" by (simp add: upd_simps freeable_add_other)
  qed (simp_all add: upd_simps freeable_add_other)
  show "keeps h0 f0 s (snd (FrameHandle_decrement_lockcount h s))" unfolding r
    by (rule keepsI[OF rel_release_rendered(3)[OF d(4,5) f l st]])
       (simp_all add: upd_simps freeable_add_other)
qed

lemma inv_release_locked:
  assumes i: "inv_l fl al s" and l: "locks (handle_heap s h) = 1"
    and f: "frame (handle_heap s h) = Some f" and st: "state (frame_heap s f) = LOCKED"
  shows "inv_l (fl @ [f]) al (snd (FrameHandle_decrement_lockcount h s))"
    and "h \<noteq> h0 \<Longrightarrow> keeps h0 f0 s (snd (FrameHandle_decrement_lockcount h s))"
proof -
  let ?s1 = "upd_handle h (\<lambda>H. H\<lparr>locks := locks H - 1\<rparr>) s"
  let ?s2 = "free_add f ?s1"
  let ?s3 = "upd_frame f (\<lambda>F. F\<lparr>handle := None, state := FREE\<rparr>) ?s2"
  let ?s4 = "upd_handle h (\<lambda>H. H\<lparr>frame := None\<rparr>) ?s3"
  note d = inv_lD[OF i]
  have r: "snd (FrameHandle_decrement_lockcount h s) = ?s4"
    by (simp add: release_locked[OF l f st])
  from d(4) st have nf: "f \<notin> set fl" "f \<notin> set al" by (auto simp: states_rel_def)
  have q1: "is_queue (frame_heap ?s1) (free (pool ?s1)) fl" using d(1) by (simp add: upd_simps)
  have qa: "is_queue (frame_heap ?s2) (free (pool ?s2)) (fl @ [f])"
    using q1 nf(1) by (rule free_add_queue)
  have "\<forall>y\<in>set al. frame_heap ?s2 y = frame_heap s y"
  proof
    fix y assume "y \<in> set al"
    with nf d(8) have "y \<noteq> f" "y \<notin> set fl" by auto
    from free_add_footprint[OF q1 this] show "frame_heap ?s2 y = frame_heap s y"
      by (simp add: upd_simps)
  qed
  with d(2) have "is_queue (frame_heap ?s2) (freeable (pool s)) al" by (rule is_queue_same)
  then have qf: "is_queue (frame_heap ?s2) (freeable (pool ?s2)) al"
    by (simp add: free_add_other upd_simps)
  from qa qf have Q: "queues_ok (fl @ [f]) al ?s4"
    by (simp add: queues_ok_def upd_frame_queue upd_simps(3,5,7))
  show "inv_l (fl @ [f]) al (snd (FrameHandle_decrement_lockcount h s))" unfolding r
  proof (rule inv_lI[OF Q _ d(3) rel_release_locked(1,2)[OF d(4,5) f l st]])
    show "frames (pool ?s4) = frames (pool s)" by (simp add: upd_simps free_add_other)
  qed (simp_all add: upd_simps free_add_other)
  show "keeps h0 f0 s (snd (FrameHandle_decrement_lockcount h s))" if "h \<noteq> h0" unfolding r
    by (rule keepsI[OF rel_release_locked(3)[OF d(4,5) f l st that]])
       (simp_all add: upd_simps free_add_other)
qed

lemma inv_upd_locks:
  assumes i: "inv_l fl al s"
    and b: "bind_rel (length (frames (pool s))) (\<lambda>f. state (frame_heap s f)) (\<lambda>f. handle (frame_heap s f))
       (\<lambda>k. frame (handle_heap s k)) ((\<lambda>k. locks (handle_heap s k))(h := v))"
  shows "inv_l fl al (upd_handle h (\<lambda>H. H\<lparr>locks := v\<rparr>) s)"
proof -
  note d = inv_lD[OF i]
  from d(1,2) have Q: "queues_ok fl al (upd_handle h (\<lambda>H. H\<lparr>locks := v\<rparr>) s)"
    by (simp add: queues_ok_def upd_simps)
  show ?thesis
    by (rule inv_lI[OF Q _ d(3) d(4) b]) (simp_all add: upd_simps)
qed

lemma inv_release:
  assumes i: "inv_l fl al s"
  shows "\<exists>fl' al'. inv_l fl' al' (snd (FrameHandle_decrement_lockcount h s))"
    and "h \<noteq> h0 \<Longrightarrow> keeps h0 f0 s (snd (FrameHandle_decrement_lockcount h s))"
proof -
  note d = inv_lD[OF i]
  consider (none) "\<not> 0 <s locks (handle_heap s h)"
    | (more) "0 <s locks (handle_heap s h)" "locks (handle_heap s h) \<noteq> 1"
    | (last) "locks (handle_heap s h) = 1"
    by blast
  then have "(\<exists>fl' al'. inv_l fl' al' (snd (FrameHandle_decrement_lockcount h s))) \<and>
    (h \<noteq> h0 \<longrightarrow> keeps h0 f0 s (snd (FrameHandle_decrement_lockcount h s)))"
  proof cases
    case none
    then have "FrameHandle_decrement_lockcount h s = (Inl AssertionFailed, s)"
      by (simp add: FrameHandle_decrement_lockcount_def ahabassert_def)
    with i show ?thesis by (auto simp: keeps_refl)
  next
    case more
    let ?s' = "upd_handle h (\<lambda>H. H\<lparr>locks := locks (handle_heap s h) - 1\<rparr>) s"
    from more have r: "snd (FrameHandle_decrement_lockcount h s) = ?s'"
      by (simp add: FrameHandle_decrement_lockcount_def ahabassert_def Let_def upd_simps upd_handle_def)
    from rel_release_more[OF d(5), of h] more
    have "inv_l fl al ?s'"
      by (intro inv_upd_locks[OF i]) simp
    moreover have "keeps h0 f0 s ?s'"
      by (rule keeps_same) (simp_all add: upd_simps)
    ultimately show ?thesis unfolding r by blast
  next
    case last
    then have "locks (handle_heap s h) \<noteq> 0" by simp
    from rel_bound[OF d(5), of h] this obtain f where
      f: "frame (handle_heap s h) = Some f"
      and st: "state (frame_heap s f) = RENDERED \<or> state (frame_heap s f) = LOCKED"
      by auto
    from st show ?thesis
    proof
      assume "state (frame_heap s f) = RENDERED"
      from inv_release_rendered[OF i last f this] show ?thesis by blast
    next
      assume "state (frame_heap s f) = LOCKED"
      from inv_release_locked[OF i last f this] show ?thesis by blast
    qed
  qed
  then show "\<exists>fl' al'. inv_l fl' al' (snd (FrameHandle_decrement_lockcount h s))"
    and "h \<noteq> h0 \<Longrightarrow> keeps h0 f0 s (snd (FrameHandle_decrement_lockcount h s))"
    by blast+
qed

lemma inv_set_rendered:
  assumes i: "inv_l fl al s"
  shows "inv_l fl al (snd (Frame_set_rendered f s))"
    and "keeps h0 f0 s (snd (Frame_set_rendered f s))"
proof -
  have "inv_l fl al (snd (Frame_set_rendered f s)) \<and> keeps h0 f0 s (snd (Frame_set_rendered f s))"
  proof (cases "state (frame_heap s f) = LOCKED")
    case False
    then have "Frame_set_rendered f s = (Inl AssertionFailed, s)"
      by (simp add: Frame_set_rendered_def ahabassert_def)
    with i show ?thesis by (simp add: keeps_refl)
  next
    case True
    note d = inv_lD[OF i]
    let ?s' = "emit (BroadcastFrame f) (upd_frame f (\<lambda>F. F\<lparr>state := RENDERED\<rparr>) s)"
    from True have r: "snd (Frame_set_rendered f s) = ?s'"
      by (simp add: Frame_set_rendered_def ahabassert_def)
    from d(1,2) have Q: "queues_ok fl al ?s'"
      by (simp add: queues_ok_def upd_simps(9,11) upd_frame_queue upd_simps(3))
    have "inv_l fl al ?s'"
      by (rule inv_lI[OF Q _ d(3) rel_set_rendered(1,2)[OF d(4,5) True]]) (simp_all add: upd_simps)
    moreover have "keeps h0 f0 s ?s'"
      by (rule keepsI[OF rel_set_rendered(3)[OF d(4,5) True]]) (simp_all add: upd_simps)
    ultimately show ?thesis unfolding r by blast
  qed
  then show "inv_l fl al (snd (Frame_set_rendered f s))"
    and "keeps h0 f0 s (snd (Frame_set_rendered f s))" by blast+
qed

lemma inv_wait_rendered:
  "(case FrameHandle_wait_rendered h [] s of Some (s', env) \<Rightarrow> s' | None \<Rightarrow> s) = s"
  by (auto split: option.splits if_splits)

lemma Frame_lock_ok:
  assumes "handle (frame_heap s f) = None" "state (frame_heap s f) = FREE"
  shows "\<exists>g. Frame_lock f h fv bv fw bw s = (Inr (), upd_frame f g s) \<and>
           (\<forall>F. state (g F) = LOCKED \<and> handle (g F) = Some h \<and>
                prev (g F) = prev F \<and> next' (g F) = next' F)"
proof -
  let ?g = "\<lambda>F. F\<lparr>handle := Some h, state := LOCKED,
                     slicerow := map (SliceRow_init fv bv fw bw)
                         (take (unat (height F div 16)) (slicerow F)) @
                        drop (unat (height F div 16)) (slicerow F)\<rparr>"
  from assms have "Frame_lock f h fv bv fw bw s = (Inr (), upd_frame f ?g s)"
    by (simp add: Frame_lock_def ahabassert_def Let_def)
  moreover have "\<forall>F. state (?g F) = LOCKED \<and> handle (?g F) = Some h \<and>
                prev (?g F) = prev F \<and> next' (?g F) = next' F" by simp
  ultimately show ?thesis by blast
qed

lemma inv_acquire_more:
  assumes i: "inv_l fl al s" and f: "frame (handle_heap s h) = Some f"
    and l: "locks (handle_heap s h) \<noteq> 0"
  shows "inv_l fl al (snd (FrameHandle_increment_lockcount h s))"
    and "keeps h0 f0 s (snd (FrameHandle_increment_lockcount h s))"
proof -
  note d = inv_lD[OF i]
  let ?s' = "upd_handle h (\<lambda>H. H\<lparr>locks := locks (handle_heap s h) + 1\<rparr>) s"
  from f l have r: "snd (FrameHandle_increment_lockcount h s) = ?s'"
    by (simp add: FrameHandle_increment_lockcount_def upd_handle_def)
  from rel_acquire_more[OF d(5), of h f] f l
  show "inv_l fl al (snd (FrameHandle_increment_lockcount h s))" unfolding r
    by (intro inv_upd_locks[OF i]) simp
  show "keeps h0 f0 s (snd (FrameHandle_increment_lockcount h s))" unfolding r
    by (rule keeps_same) (simp_all add: upd_simps)
qed

lemma inv_acquire_resurrect:
  assumes i: "inv_l fl al s" and f: "frame (handle_heap s h) = Some f"
    and st: "state (frame_heap s f) = FREEABLE"
  shows "inv_l fl (remove1 f al) (snd (FrameHandle_increment_lockcount h s)) \<and>
         locks (handle_heap s h) = 0 \<and> f \<in> set al \<and>
         fst (FrameHandle_increment_lockcount h s) = Inr () \<and>
         frame (handle_heap (snd (FrameHandle_increment_lockcount h s)) h) = Some f \<and>
         locks (handle_heap (snd (FrameHandle_increment_lockcount h s)) h) = 1 \<and>
         state (frame_heap (snd (FrameHandle_increment_lockcount h s)) f) = RENDERED \<and>
         events (snd (FrameHandle_increment_lockcount h s)) = events s @ [BroadcastFrame f]"
    and "h \<noteq> h0 \<Longrightarrow> keeps h0 f0 s (snd (FrameHandle_increment_lockcount h s))"
proof -
  note d = inv_lD[OF i]
  note a = rel_acquire_resurrect[OF d(4,5) f st d(7)]
  note l = a(1)
  let ?s1 = "BufferPool_remove_from_freeable f s"
  let ?s2 = "emit (BroadcastFrame f) (upd_frame f (\<lambda>F. F\<lparr>state := RENDERED\<rparr>) ?s1)"
  let ?s3 = "upd_handle h (\<lambda>H. H\<lparr>locks := locks H + 1\<rparr>) ?s2"
  note m = remove_from_freeable_queue[OF d(2) a(2)]
  from m st have "Frame_relock f ?s1 = (Inr (), ?s2)"
    by (simp add: Frame_relock_def ahabassert_def)
  with f l st have r: "FrameHandle_increment_lockcount h s = (Inr (), ?s3)"
    by (simp add: FrameHandle_increment_lockcount_def ahabassert_def)
  from m have qa: "is_queue (frame_heap ?s1) (freeable (pool ?s1)) (remove1 f al)" by simp
  have "\<forall>y\<in>set fl. frame_heap ?s1 y = frame_heap s y"
    using m d(8) by blast
  with d(1) have "is_queue (frame_heap ?s1) (free (pool s)) fl" by (rule is_queue_same)
  with m have qf: "is_queue (frame_heap ?s1) (free (pool ?s1)) fl" by simp
  from qa qf have Q: "queues_ok fl (remove1 f al) ?s3"
    by (simp add: queues_ok_def upd_simps(5,7,9,11) upd_frame_queue upd_simps(3))
  have "inv_l fl (remove1 f al) ?s3"
  proof (rule inv_lI[OF Q _ d(3) a(3,4)])
    show "frames (pool ?s3) = frames (pool s)" using m by (simp add: upd_simps)
  qed (use m in \<open>simp_all add: upd_simps\<close>)
  moreover have "frame (handle_heap ?s3 h) = Some f" "locks (handle_heap ?s3 h) = 1"
    "state (frame_heap ?s3 f) = RENDERED" "events ?s3 = events s @ [BroadcastFrame f]"
    using m f l by (simp_all add: upd_simps)
  ultimately show "inv_l fl (remove1 f al) (snd (FrameHandle_increment_lockcount h s)) \<and>
         locks (handle_heap s h) = 0 \<and> f \<in> set al \<and>
         fst (FrameHandle_increment_lockcount h s) = Inr () \<and>
         frame (handle_heap (snd (FrameHandle_increment_lockcount h s)) h) = Some f \<and>
         locks (handle_heap (snd (FrameHandle_increment_lockcount h s)) h) = 1 \<and>
         state (frame_heap (snd (FrameHandle_increment_lockcount h s)) f) = RENDERED \<and>
         events (snd (FrameHandle_increment_lockcount h s)) = events s @ [BroadcastFrame f]"
    using l a(2) by (simp add: r)
  show "keeps h0 f0 s (snd (FrameHandle_increment_lockcount h s))" if "h \<noteq> h0"
    unfolding r snd_conv
    by (rule keepsI[OF a(5)[OF that]]) (use m in \<open>simp_all add: upd_simps\<close>)
qed

lemma inv_acquire_free:
  assumes i: "inv_l (x # fl) al s" and f: "frame (handle_heap s h) = None"
  shows "inv_l fl al (snd (FrameHandle_increment_lockcount h s))"
    and "h \<noteq> h0 \<Longrightarrow> keeps h0 f0 s (snd (FrameHandle_increment_lockcount h s))"
proof -
  note d = inv_lD[OF i]
  note a = rel_acquire_free[OF d(4,5) f d(6)]
  from free_remove_queue[OF d(1)] obtain s1 where
    m: "free_remove s = (Some x, s1)" "is_queue (frame_heap s1) (free (pool s1)) fl"
      "\<forall>y. y \<notin> set (x # fl) \<longrightarrow> frame_heap s1 y = frame_heap s y"
      "\<forall>y. state (frame_heap s1 y) = state (frame_heap s y) \<and>
           handle (frame_heap s1 y) = handle (frame_heap s y)"
      "freeable (pool s1) = freeable (pool s)" "frames (pool s1) = frames (pool s)"
      "handle_heap s1 = handle_heap s" "events s1 = events s"
    by blast
  let ?s2 = "upd_handle h (\<lambda>H. H\<lparr>frame := Some x\<rparr>) s1"
  let ?p = "pic (handle_heap ?s2 h)"
  from m(4) a(1,2) have "handle (frame_heap ?s2 x) = None" "state (frame_heap ?s2 x) = FREE"
    by (simp_all add: upd_simps)
  from Frame_lock_ok[OF this, of h "f_code_fv ?p" "f_code_bv ?p" "forward ?p" "backward ?p"]
  obtain g where g: "Frame_lock x h (f_code_fv ?p) (f_code_bv ?p) (forward ?p) (backward ?p) ?s2 =
       (Inr (), upd_frame x g ?s2)"
    and gp: "\<forall>F. state (g F) = LOCKED \<and> handle (g F) = Some h \<and>
                prev (g F) = prev F \<and> next' (g F) = next' F"
    by blast
  let ?s3 = "upd_frame x g ?s2"
  let ?s4 = "emit (BroadcastHandle h) (upd_handle h (\<lambda>H. H\<lparr>locks := locks H + 1\<rparr>) ?s3)"
  have gf: "BufferPool_get_free_frame s = (Inr x, s1)"
    by (simp add: BufferPool_get_free_frame_def m(1))
  have r: "snd (FrameHandle_increment_lockcount h s) = ?s4"
    using f a(3) by (simp add: FrameHandle_increment_lockcount_def ahabassert_def gf Let_def g)
  have qf: "is_queue (frame_heap ?s3) (free (pool ?s3)) fl"
    using m(2) gp by (simp add: upd_frame_queue upd_simps(3,5,7))
  have "\<forall>y\<in>set al. frame_heap s1 y = frame_heap s y" using m(3) d(8) by auto
  with d(2) have "is_queue (frame_heap s1) (freeable (pool s)) al" by (rule is_queue_same)
  then have qa: "is_queue (frame_heap ?s3) (freeable (pool ?s3)) al"
    using gp by (simp add: upd_frame_queue upd_simps(3,5,7) m(5))
  from qf qa have Q: "queues_ok fl al ?s4"
    by (simp add: queues_ok_def upd_simps(5,7,9,11))
  show "inv_l fl al (snd (FrameHandle_increment_lockcount h s))" unfolding r
  proof (rule inv_lI[OF Q _ d(3) a(4,5)])
    show "frames (pool ?s4) = frames (pool s)" by (simp add: upd_simps m(6))
  qed (use m gp in \<open>simp_all add: upd_simps\<close>)
  show "keeps h0 f0 s (snd (FrameHandle_increment_lockcount h s))" if "h \<noteq> h0" unfolding r
    by (rule keepsI[OF a(6)[OF that]]) (use m gp in \<open>simp_all add: upd_simps\<close>)
qed

lemma inv_acquire_evict:
  assumes i: "inv_l [] (x # al) s" and f: "frame (handle_heap s h) = None"
  shows "inv_l [] al (snd (FrameHandle_increment_lockcount h s))"
    and "h \<noteq> h0 \<Longrightarrow> keeps h0 f0 s (snd (FrameHandle_increment_lockcount h s))"
proof -
  note d = inv_lD[OF i]
  note a = rel_acquire_evict[OF d(4,5) f d(7)]
  from a(3) obtain h' where h': "handle (frame_heap s x) = Some h'" "locks (handle_heap s h') = 0"
    "h' \<noteq> h" "frame (handle_heap s h') = Some x"
    and b: "bind_rel (length (frames (pool s))) ((\<lambda>f. state (frame_heap s f))(x := LOCKED))
       ((\<lambda>f. handle (frame_heap s f))(x := Some h))
       ((\<lambda>k. frame (handle_heap s k))(h' := None, h := Some x))
       ((\<lambda>k. locks (handle_heap s k))(h := locks (handle_heap s h) + 1))"
    and kp: "h \<noteq> h0 \<longrightarrow> keeps_rel h0 f0 (\<lambda>f. state (frame_heap s f)) (\<lambda>k. frame (handle_heap s k))
       ((\<lambda>f. state (frame_heap s f))(x := LOCKED))
       ((\<lambda>k. frame (handle_heap s k))(h' := None, h := Some x))"
    by blast
  from d(1) have fe: "free_remove s = (None, s)" by (simp add: is_queue_Nil free_remove_empty)
  from freeable_remove_queue[OF d(2)] obtain s1 where
    m: "freeable_remove s = (Some x, s1)" "is_queue (frame_heap s1) (freeable (pool s1)) al"
      "\<forall>y. y \<notin> set (x # al) \<longrightarrow> frame_heap s1 y = frame_heap s y"
      "\<forall>y. state (frame_heap s1 y) = state (frame_heap s y) \<and>
           handle (frame_heap s1 y) = handle (frame_heap s y)"
      "free (pool s1) = free (pool s)" "frames (pool s1) = frames (pool s)"
      "handle_heap s1 = handle_heap s" "events s1 = events s"
    by blast
  let ?e1 = "emit (BroadcastHandle h') (upd_handle h' (\<lambda>H. H\<lparr>frame := None\<rparr>) s1)"
  let ?e2 = "upd_frame x (\<lambda>F. F\<lparr>handle := None, state := FREE\<rparr>) ?e1"
  have ff: "Frame_free x s1 = (Inr (), ?e2)"
    using m(4,7) a(1) h' by (simp add: Frame_free_def FrameHandle_set_frame_def ahabassert_def)
  have gf: "BufferPool_get_free_frame s = (Inr x, ?e2)"
    by (simp add: BufferPool_get_free_frame_def fe m(1) ff)
  let ?s2 = "upd_handle h (\<lambda>H. H\<lparr>frame := Some x\<rparr>) ?e2"
  let ?p = "pic (handle_heap ?s2 h)"
  have "handle (frame_heap ?s2 x) = None" "state (frame_heap ?s2 x) = FREE"
    by (simp_all add: upd_simps)
  from Frame_lock_ok[OF this, of h "f_code_fv ?p" "f_code_bv ?p" "forward ?p" "backward ?p"]
  obtain g where g: "Frame_lock x h (f_code_fv ?p) (f_code_bv ?p) (forward ?p) (backward ?p) ?s2 =
       (Inr (), upd_frame x g ?s2)"
    and gp: "\<forall>F. state (g F) = LOCKED \<and> handle (g F) = Some h \<and>
                prev (g F) = prev F \<and> next' (g F) = next' F"
    by blast
  let ?s3 = "upd_frame x g ?s2"
  let ?s4 = "emit (BroadcastHandle h) (upd_handle h (\<lambda>H. H\<lparr>locks := locks H + 1\<rparr>) ?s3)"
  have r: "snd (FrameHandle_increment_lockcount h s) = ?s4"
    using f a(2) by (simp add: FrameHandle_increment_lockcount_def ahabassert_def gf Let_def g)
  have qa: "is_queue (frame_heap ?s3) (freeable (pool ?s3)) al"
    using m(2) gp by (simp add: upd_frame_queue upd_simps(3,5,7,9,11))
  from d(1) have "is_queue (frame_heap s1) (free (pool s1)) []"
    by (simp add: is_queue_Nil m(5))
  then have qf: "is_queue (frame_heap ?s3) (free (pool ?s3)) []"
    by (simp add: is_queue_Nil upd_simps)
  from qf qa have Q: "queues_ok [] al ?s4"
    by (simp add: queues_ok_def upd_simps(5,7,9,11))
  show "inv_l [] al (snd (FrameHandle_increment_lockcount h s))" unfolding r
  proof (rule inv_lI[OF Q _ d(3) a(4) b])
    show "frames (pool ?s4) = frames (pool s)" by (simp add: upd_simps m(6))
  qed (use m gp h' in \<open>auto simp add: upd_simps\<close>)
  show "keeps h0 f0 s (snd (FrameHandle_increment_lockcount h s))" if "h \<noteq> h0" unfolding r
    by (rule keepsI[OF kp[rule_format, OF that]]) (use m gp h' in \<open>auto simp add: upd_simps\<close>)
qed

lemma inv_acquire:
  assumes i: "inv_l fl al s"
  shows "\<exists>fl' al'. inv_l fl' al' (snd (FrameHandle_increment_lockcount h s))"
    and "h \<noteq> h0 \<Longrightarrow> keeps h0 f0 s (snd (FrameHandle_increment_lockcount h s))"
proof -
  have "(\<exists>fl' al'. inv_l fl' al' (snd (FrameHandle_increment_lockcount h s))) \<and>
    (h \<noteq> h0 \<longrightarrow> keeps h0 f0 s (snd (FrameHandle_increment_lockcount h s)))"
  proof (cases "frame (handle_heap s h)")
    case (Some f)
    show ?thesis
    proof (cases "locks (handle_heap s h) = 0")
      case True
      show ?thesis
      proof (cases "state (frame_heap s f) = FREEABLE")
        case F: True
        from inv_acquire_resurrect[OF i Some F] show ?thesis by blast
      next
        case False
        with Some True have "FrameHandle_increment_lockcount h s = (Inl AssertionFailed, s)"
          by (simp add: FrameHandle_increment_lockcount_def ahabassert_def)
        with i show ?thesis by (auto simp: keeps_refl)
      qed
    next
      case False
      from inv_acquire_more[OF i Some False] show ?thesis by blast
    qed
  next
    case None
    note d = inv_lD[OF i]
    show ?thesis
    proof (cases fl)
      case (Cons x fl')
      with i have "inv_l (x # fl') al s" by simp
      from inv_acquire_free[OF this None] show ?thesis by blast
    next
      case Nil
      show ?thesis
      proof (cases al)
        case (Cons x al')
        with i Nil have "inv_l [] (x # al') s" by simp
        from inv_acquire_evict[OF this None] show ?thesis by blast
      next
        case Nil2: Nil
        from d(1,2) Nil Nil2 have "BufferPool_get_free_frame s = (Inl OutOfFrames, s)"
          by (simp add: is_queue_Nil BufferPool_get_free_frame_def free_remove_empty freeable_remove_empty)
        moreover from bind_relD(2)[OF d(5), of h] None have "locks (handle_heap s h) = 0" by simp
        ultimately have "snd (FrameHandle_increment_lockcount h s) = s"
          using None by (simp add: FrameHandle_increment_lockcount_def ahabassert_def)
        with i show ?thesis by (auto simp: keeps_refl)
      qed
    qed
  qed
  then show "\<exists>fl' al'. inv_l fl' al' (snd (FrameHandle_increment_lockcount h s))"
    and "h \<noteq> h0 \<Longrightarrow> keeps h0 f0 s (snd (FrameHandle_increment_lockcount h s))"
    by blast+
qed

lemma fold_free_add:
  "is_queue (frame_heap s) (free (pool s)) xs \<Longrightarrow> distinct (xs @ ys) \<Longrightarrow>
   is_queue (frame_heap (fold free_add ys s)) (free (pool (fold free_add ys s))) (xs @ ys) \<and>
   (\<forall>y. state (frame_heap (fold free_add ys s) y) = state (frame_heap s y) \<and>
        handle (frame_heap (fold free_add ys s) y) = handle (frame_heap s y)) \<and>
   handle_heap (fold free_add ys s) = handle_heap s \<and>
   freeable (pool (fold free_add ys s)) = freeable (pool s) \<and>
   frames (pool (fold free_add ys s)) = frames (pool s)"
proof (induction ys arbitrary: xs s)
  case Nil
  then show ?case by simp
next
  case (Cons y ys)
  from Cons.prems have "is_queue (frame_heap (free_add y s)) (free (pool (free_add y s))) (xs @ [y])"
    by (intro free_add_queue) auto
  from Cons.IH[OF this] Cons.prems(2) show ?case
    by (simp add: free_add_other)
qed

lemma inv_init:
  "inv_l [0..<unat n] [] (BufferPool_new n mb_width mb_height (\<lambda>h. FrameHandle_new (pics h)))"
proof -
  let ?init = "\<lparr>frame_heap = (\<lambda>i. Frame_new mb_width mb_height),
        handle_heap = (\<lambda>h. FrameHandle_new (pics h)),
        pool = \<lparr>num_frames = n,
                pool_width = 16 * mb_width, pool_height = 16 * mb_height,
                frames = [0..<unat n],
                free = FrameQueue_new, freeable = FrameQueue_new\<rparr>,
        events = []\<rparr>"
  let ?w = "fold free_add [0..<unat n] ?init"
  have e: "BufferPool_new n mb_width mb_height (\<lambda>h. FrameHandle_new (pics h)) = ?w"
    by (simp add: BufferPool_new_def)
  have "is_queue (frame_heap ?init) (free (pool ?init)) []"
    by (simp add: is_queue_Nil FrameQueue_new_def)
  from fold_free_add[OF this, of "[0..<unat n]"]
  have m: "is_queue (frame_heap ?w) (free (pool ?w)) [0..<unat n]"
    "\<And>y. state (frame_heap ?w y) = FREE" "\<And>y. handle (frame_heap ?w y) = None"
    "handle_heap ?w = (\<lambda>h. FrameHandle_new (pics h))"
    "freeable (pool ?w) = FrameQueue_new" "frames (pool ?w) = [0..<unat n]"
    by (simp_all add: Frame_new_def)
  from m(1,5) have Q: "queues_ok [0..<unat n] [] ?w"
    by (simp add: queues_ok_def is_queue_Nil FrameQueue_new_def)
  have S: "states_ok [0..<unat n] [] ?w"
    unfolding states_ok_def m by (simp add: states_rel_def)
  have B: "bind_ok ?w"
    unfolding bind_ok_def m by (simp add: bind_rel_def FrameHandle_new_def)
  from Q S B show ?thesis by (simp add: e inv_l_def)
qed

lemma inv_exec:
  assumes "inv_l fl al s" "client_op a"
  shows "\<exists>fl' al'. inv_l fl' al' (exec a s)"
    and "\<not> on_handle h0 a \<Longrightarrow> keeps h0 f0 s (exec a s)"
proof -
  have "(\<exists>fl' al'. inv_l fl' al' (exec a s)) \<and> (\<not> on_handle h0 a \<longrightarrow> keeps h0 f0 s (exec a s))"
  proof (cases a)
    case (Acquire h)
    with inv_acquire(1)[OF assms(1), of h] inv_acquire(2)[OF assms(1), of h h0 f0] show ?thesis by simp
  next
    case (Release h)
    with inv_release(1)[OF assms(1), of h] inv_release(2)[OF assms(1), of h h0 f0] show ?thesis by simp
  next
    case (SetRendered f)
    with inv_set_rendered(1)[OF assms(1), of f] inv_set_rendered(2)[OF assms(1), of h0 f0 f] show ?thesis by auto
  next
    case (WaitRendered h)
    with assms(1) show ?thesis unfolding WaitRendered exec.simps inv_wait_rendered
      by (auto simp: keeps_refl)
  qed (use assms(2) in simp_all)
  then show "\<exists>fl' al'. inv_l fl' al' (exec a s)"
    and "\<not> on_handle h0 a \<Longrightarrow> keeps h0 f0 s (exec a s)" by blast+
qed

lemma inv_run:
  "inv_l fl al s \<Longrightarrow> list_all client_op ops \<Longrightarrow> \<exists>fl' al'. inv_l fl' al' (run ops s)"
proof (induction ops arbitrary: fl al s)
  case Nil
  then show ?case by (auto simp: run_def)
next
  case (Cons a ops)
  from inv_exec(1)[OF Cons.prems(1), of a] Cons.prems(2)
  obtain fl1 al1 where "inv_l fl1 al1 (exec a s)" by auto
  from Cons.IH[OF this] Cons.prems(2) show ?case by (simp add: run_def)
qed

lemma keeps_run:
  "inv_l fl al s \<Longrightarrow> list_all client_op ops \<Longrightarrow> list_all (\<lambda>a. \<not> on_handle h0 a) ops \<Longrightarrow>
   keeps h0 f0 s (run ops s)"
proof (induction ops arbitrary: fl al s)
  case Nil
  then show ?case by (simp add: run_def keeps_refl)
next
  case (Cons a ops)
  from inv_exec(1)[OF Cons.prems(1), of a] Cons.prems(2)
  obtain fl1 al1 where i: "inv_l fl1 al1 (exec a s)" by auto
  from inv_exec(2)[OF Cons.prems(1), of a h0 f0] Cons.prems(2,3)
  have k: "keeps h0 f0 s (exec a s)" by simp
  from Cons.IH[OF i] Cons.prems(2,3) have "keeps h0 f0 (exec a s) (run ops (exec a s))" by simp
  with k show ?case by (simp add: run_def keeps_trans[of h0 f0 s "exec a s"])
qed

text \<open>
  C2, amended: in every state reached from a freshly built pool, with freshly built
  handles, by a sequence of the clients' operations (acquire and release on a handle,
  \<open>set_rendered\<close> on a Frame, \<open>wait_rendered\<close> on a handle), every Frame of the pool is FREE
  exactly when it is on the free list, FREEABLE exactly when it is on the freeable list,
  LOCKED or RENDERED exactly when it is on neither, and never on both.
\<close>

theorem C2_coherent_under_client_operations:
  assumes "list_all client_op ops"
  shows "coherent (run ops (BufferPool_new n mb_width mb_height (\<lambda>h. FrameHandle_new (pics h))))"
proof -
  from inv_run[OF inv_init assms] obtain fl al where
    "inv_l fl al (run ops (BufferPool_new n mb_width mb_height (\<lambda>h. FrameHandle_new (pics h))))"
    by blast
  then show ?thesis by (rule inv_coherent)
qed

theorem C2_coherent_under_client_operations_witness:
  "list_all client_op [Acquire 0, SetRendered 0, Release 0, Acquire 1] \<and>
   coherent (run [Acquire 0, SetRendered 0, Release 0, Acquire 1] pool1)"
  using C2_coherent_under_client_operations
    [of "[Acquire 0, SetRendered 0, Release 0, Acquire 1]" 1 2 2 "\<lambda>h. pic0"]
  by (simp add: pool1_def handles0_def)

lemma inv_reachable:
  assumes "list_all client_op ops"
  shows "\<exists>fl al. inv_l fl al (run ops (BufferPool_new n mb_width mb_height (\<lambda>h. FrameHandle_new (pics h))))"
  using inv_run[OF inv_init assms] .

lemma run_append: "run (xs @ ys) s = run ys (run xs s)"
  by (simp add: run_def)

lemma inv_on_freeable:
  assumes i: "inv_l fl al s" and f: "f < length (frames (pool s))"
  shows "on_freeable s f \<longleftrightarrow> state (frame_heap s f) = FREEABLE"
proof -
  from inv_lD(3)[OF i] have "set (frames (pool s)) = {0..<length (frames (pool s))}"
    by (metis atLeastLessThan_upt)
  with f have "f \<in> set (frames (pool s))" by simp
  with inv_coherent[OF i] show ?thesis by (auto simp: coherent_def)
qed

lemma inv_bound_frame:
  assumes i: "inv_l fl al s" and f: "frame (handle_heap s h) = Some f"
  shows "f < length (frames (pool s))"
  using bind_relD(1)[OF inv_lD(5)[OF i], of h f] f by simp

lemma released_rendered_facts:
  assumes l: "locks (handle_heap s h) = 1" and f: "frame (handle_heap s h) = Some f"
    and st: "state (frame_heap s f) = RENDERED"
  shows "frame (handle_heap (exec (Release h) s) h) = Some f"
    "locks (handle_heap (exec (Release h) s) h) = 0"
    "state (frame_heap (exec (Release h) s) f) = FREEABLE"
  using l f by (simp_all add: release_rendered[OF l f st] upd_simps freeable_add_other)

text \<open>
  C4. Resurrection. In a state reached by the clients' operations, take a handle with one
  lock on a RENDERED Frame and release it: the handle keeps the Frame, with no lock, and
  the Frame is FREEABLE and on the freeable list. Let the clients then run any further
  operations, and suppose the handle still has that Frame (it was not evicted) and either
  none of those operations was an acquire or a release on this handle, or the Frame is
  still FREEABLE. Then an acquire on the handle succeeds: the handle has the same Frame
  pointer, the Frame has gone from FREEABLE to RENDERED with the broadcast of \<open>relock\<close>, it
  is off the freeable list, and the lock count is 1. In any world at all, an acquire on a
  handle with a Frame and no locks fails its assertion, changing nothing, unless the Frame
  is FREEABLE.
\<close>

theorem C4_resurrection_round_trip:
  assumes pre: "list_all client_op pre"
    and s: "s = run pre (BufferPool_new n mb_width mb_height (\<lambda>h. FrameHandle_new (pics h)))"
    and bound: "frame (handle_heap s h) = Some f" "locks (handle_heap s h) = 1"
      "state (frame_heap s f) = RENDERED"
  shows "frame (handle_heap (exec (Release h) s) h) = Some f \<and>
         locks (handle_heap (exec (Release h) s) h) = 0 \<and>
         state (frame_heap (exec (Release h) s) f) = FREEABLE \<and>
         on_freeable (exec (Release h) s) f \<and>
         (list_all client_op mid \<and> t = run mid (exec (Release h) s) \<and>
          frame (handle_heap t h) = Some f \<and>
          (list_all (\<lambda>a. \<not> on_handle h a) mid \<or> state (frame_heap t f) = FREEABLE) \<longrightarrow>
            state (frame_heap t f) = FREEABLE \<and> locks (handle_heap t h) = 0 \<and> on_freeable t f \<and>
            fst (FrameHandle_increment_lockcount h t) = Inr () \<and>
            frame (handle_heap (snd (FrameHandle_increment_lockcount h t)) h) = Some f \<and>
            locks (handle_heap (snd (FrameHandle_increment_lockcount h t)) h) = 1 \<and>
            state (frame_heap (snd (FrameHandle_increment_lockcount h t)) f) = RENDERED \<and>
            \<not> on_freeable (snd (FrameHandle_increment_lockcount h t)) f \<and>
            events (snd (FrameHandle_increment_lockcount h t)) = events t @ [BroadcastFrame f]) \<and>
         (frame (handle_heap w h) = Some g \<and> locks (handle_heap w h) = 0 \<and>
          state (frame_heap w g) \<noteq> FREEABLE \<longrightarrow>
            FrameHandle_increment_lockcount h w = (Inl AssertionFailed, w))"
proof -
  let ?r = "exec (Release h) s"
  from inv_reachable[OF pre, of n mb_width mb_height pics] obtain fl al where i: "inv_l fl al s"
    unfolding s by blast
  from inv_exec(1)[OF i, of "Release h"] obtain fl1 al1 where ir: "inv_l fl1 al1 ?r"
    by auto
  note rf = released_rendered_facts[OF bound(2,1,3)]
  have A: "on_freeable ?r f"
    using inv_on_freeable[OF ir inv_bound_frame[OF ir rf(1)]] rf(3) by simp
  have B: "state (frame_heap t f) = FREEABLE \<and> locks (handle_heap t h) = 0 \<and> on_freeable t f \<and>
            fst (FrameHandle_increment_lockcount h t) = Inr () \<and>
            frame (handle_heap (snd (FrameHandle_increment_lockcount h t)) h) = Some f \<and>
            locks (handle_heap (snd (FrameHandle_increment_lockcount h t)) h) = 1 \<and>
            state (frame_heap (snd (FrameHandle_increment_lockcount h t)) f) = RENDERED \<and>
            \<not> on_freeable (snd (FrameHandle_increment_lockcount h t)) f \<and>
            events (snd (FrameHandle_increment_lockcount h t)) = events t @ [BroadcastFrame f]"
    if m: "list_all client_op mid" and t: "t = run mid ?r" and k: "frame (handle_heap t h) = Some f"
      and c: "list_all (\<lambda>a. \<not> on_handle h a) mid \<or> state (frame_heap t f) = FREEABLE"
  proof -
    from inv_run[OF ir m] obtain fl2 al2 where it: "inv_l fl2 al2 t" unfolding t by blast
    have st: "state (frame_heap t f) = FREEABLE"
    proof (rule disjE[OF c])
      assume "list_all (\<lambda>a. \<not> on_handle h a) mid"
      from keeps_run[OF ir m this, of f] k rf(3) show ?thesis
        unfolding t by (simp add: keeps_def keeps_rel_def)
    qed
    let ?t' = "snd (FrameHandle_increment_lockcount h t)"
    note r = inv_acquire_resurrect(1)[OF it k st]
    from r have i': "inv_l fl2 (remove1 f al2) ?t'" by simp
    from r have k': "frame (handle_heap ?t' h) = Some f" by simp
    have 1: "on_freeable t f" using inv_on_freeable[OF it inv_bound_frame[OF it k]] st by simp
    have 2: "\<not> on_freeable ?t' f"
      using inv_on_freeable[OF i' inv_bound_frame[OF i' k']] r by simp
    from st 1 2 r show ?thesis by simp
  qed
  have C: "frame (handle_heap w h) = Some g \<and> locks (handle_heap w h) = 0 \<and>
          state (frame_heap w g) \<noteq> FREEABLE \<longrightarrow>
            FrameHandle_increment_lockcount h w = (Inl AssertionFailed, w)"
    by (simp add: FrameHandle_increment_lockcount_def ahabassert_def)
  from rf A B C show ?thesis by blast
qed


lemma pool2_eq: "pool2 =
  \<lparr>frame_heap = (\<lambda>i. Frame_new 2 2)
     (0 := (Frame_new 2 2)\<lparr>prev := None, next' := Some 1\<rparr>,
      1 := (Frame_new 2 2)\<lparr>prev := Some 0, next' := None\<rparr>),
   handle_heap = handles0,
   pool = \<lparr>num_frames = 2, pool_width = 32, pool_height = 32, frames = [0, 1],
           free = \<lparr>first = Some 0, last' = Some 1\<rparr>, freeable = \<lparr>first = None, last' = None\<rparr>\<rparr>,
   events = []\<rparr>"
  by (simp add: pool2_def BufferPool_new_def queue_defs world_defs upt_rec fun_upd_twist)

lemma rendered2_facts:
  "frame (handle_heap rendered2 0) = Some 0" "locks (handle_heap rendered2 0) = 1"
  "state (frame_heap rendered2 0) = RENDERED"
  by (simp_all add: rendered2_def run_def pool2_eq handle_defs pool_defs frame_defs queue_defs
      world_defs handles0_def Let_def Frame_new_def)

lemma shared2_facts:
  "frame (handle_heap shared2 0) = Some 0" "locks (handle_heap shared2 0) = 0"
  by (simp_all add: shared2_def rendered2_def run_def pool2_eq handle_defs pool_defs frame_defs queue_defs
      world_defs handles0_def Let_def Frame_new_def)

lemma relocked1_facts:
  "frame (handle_heap relocked1 0) = Some 0" "locks (handle_heap relocked1 0) = 0"
  "state (frame_heap relocked1 0) = RENDERED"
  by (simp_all add: relocked1_def released1_eq Frame_relock_def basic_defs)

theorem C4_resurrection_round_trip_witness:
  "list_all client_op [Acquire 0, SetRendered 0] \<and>
   frame (handle_heap rendered2 0) = Some 0 \<and> locks (handle_heap rendered2 0) = 1 \<and>
   state (frame_heap rendered2 0) = RENDERED \<and>
   state (frame_heap (exec (Release 0) rendered2) 0) = FREEABLE \<and>
   on_freeable (exec (Release 0) rendered2) 0 \<and>
   list_all client_op [Acquire 1] \<and> list_all (\<lambda>a. \<not> on_handle 0 a) [Acquire 1] \<and>
   frame (handle_heap shared2 0) = Some 0 \<and> locks (handle_heap shared2 0) = 0 \<and>
   state (frame_heap shared2 0) = FREEABLE \<and> on_freeable shared2 0 \<and>
   fst (FrameHandle_increment_lockcount 0 shared2) = Inr () \<and>
   frame (handle_heap (snd (FrameHandle_increment_lockcount 0 shared2)) 0) = Some 0 \<and>
   locks (handle_heap (snd (FrameHandle_increment_lockcount 0 shared2)) 0) = 1 \<and>
   state (frame_heap (snd (FrameHandle_increment_lockcount 0 shared2)) 0) = RENDERED \<and>
   \<not> on_freeable (snd (FrameHandle_increment_lockcount 0 shared2)) 0 \<and>
   frame (handle_heap relocked1 0) = Some 0 \<and> locks (handle_heap relocked1 0) = 0 \<and>
   state (frame_heap relocked1 0) \<noteq> FREEABLE \<and>
   FrameHandle_increment_lockcount 0 relocked1 = (Inl AssertionFailed, relocked1)"
proof -
  have p: "list_all client_op [Acquire 0, SetRendered 0]" "list_all client_op [Acquire 1]"
    "list_all (\<lambda>a. \<not> on_handle 0 a) [Acquire 1]"
    by simp_all
  have s: "rendered2 = run [Acquire 0, SetRendered 0]
             (BufferPool_new 2 2 2 (\<lambda>h. FrameHandle_new ((\<lambda>h. pic0) h)))"
    by (simp add: rendered2_def pool2_def handles0_def)
  have t: "shared2 = run [Acquire 1] (exec (Release 0) rendered2)"
    by (simp add: shared2_def)
  from C4_resurrection_round_trip[OF p(1) s rendered2_facts, of "[Acquire 1]" shared2 relocked1 0]
    p t rendered2_facts shared2_facts relocked1_facts
  show ?thesis by simp
qed

lemma inv_get_free_frame:
  assumes i: "inv_l fl al s"
  shows "(fst (BufferPool_get_free_frame s) = Inl OutOfFrames \<and>
          snd (BufferPool_get_free_frame s) = s \<and> fl = [] \<and> al = []) \<or>
         (\<exists>f. fst (BufferPool_get_free_frame s) = Inr f \<and> f = hd (fl @ al) \<and> fl @ al \<noteq> [] \<and>
              state (frame_heap (snd (BufferPool_get_free_frame s)) f) = FREE \<and>
              handle (frame_heap (snd (BufferPool_get_free_frame s)) f) = None)"
proof -
  note d = inv_lD[OF i]
  show ?thesis
  proof (cases fl)
    case (Cons x fl')
    with d(1) have q: "is_queue (frame_heap s) (free (pool s)) (x # fl')" by simp
    from free_remove_queue[OF q] obtain s1 where
      m: "free_remove s = (Some x, s1)"
        "\<forall>y. state (frame_heap s1 y) = state (frame_heap s y) \<and>
           handle (frame_heap s1 y) = handle (frame_heap s y)"
      by blast
    from d(4) Cons have x: "x < length (frames (pool s))" "state (frame_heap s x) = FREE"
      by (auto simp: states_rel_def)
    have "handle (frame_heap s x) = None"
    proof (cases "handle (frame_heap s x)")
      case (Some k)
      from bind_relD(4)[OF d(5) x(1) Some] x(2) show ?thesis by simp
    qed simp
    with m x Cons show ?thesis by (simp add: BufferPool_get_free_frame_def)
  next
    case Nil
    with d(1) have fe: "free_remove s = (None, s)" by (simp add: is_queue_Nil free_remove_empty)
    show ?thesis
    proof (cases al)
      case Nil2: Nil
      with d(2) have "freeable_remove s = (None, s)"
        by (simp add: is_queue_Nil freeable_remove_empty)
      with fe Nil Nil2 show ?thesis by (simp add: BufferPool_get_free_frame_def)
    next
      case (Cons x al')
      with d(2) have q: "is_queue (frame_heap s) (freeable (pool s)) (x # al')" by simp
      from freeable_remove_queue[OF q] obtain s1 where
        m: "freeable_remove s = (Some x, s1)"
          "\<forall>y. state (frame_heap s1 y) = state (frame_heap s y) \<and>
             handle (frame_heap s1 y) = handle (frame_heap s y)"
          "handle_heap s1 = handle_heap s"
        by blast
      from d(4) Cons have x: "x < length (frames (pool s))" "state (frame_heap s x) = FREEABLE"
        by (auto simp: states_rel_def)
      obtain k where k: "handle (frame_heap s x) = Some k"
      proof (cases "handle (frame_heap s x)")
        case None
        from bind_relD(3)[OF d(5) x(1) None] x(2) show ?thesis by simp
      qed blast
      from bind_relD(4)[OF d(5) x(1) k] have "frame (handle_heap s k) = Some x" by simp
      from bind_relD(1)[OF d(5) this] x(2) have l: "locks (handle_heap s k) = 0" by simp
      let ?e = "upd_frame x (\<lambda>F. F\<lparr>handle := None, state := FREE\<rparr>)
                 (emit (BroadcastHandle k) (upd_handle k (\<lambda>H. H\<lparr>frame := None\<rparr>) s1))"
      have "Frame_free x s1 = (Inr (), ?e)"
        using m x k l by (simp add: Frame_free_def FrameHandle_set_frame_def ahabassert_def)
      with fe m(1) have "BufferPool_get_free_frame s = (Inr x, ?e)"
        by (simp add: BufferPool_get_free_frame_def)
      with Nil Cons show ?thesis by (simp add: upd_simps)
    qed
  qed
qed

text \<open>
  C1. BufferPool::get_free_frame: with a non-empty free list it pops and returns its head,
  leaving states, handles and the freeable list alone; with an empty free list and a
  non-empty freeable list it pops the head of the freeable list, calls that Frame's
  \<open>free\<close> and returns the Frame when \<open>free\<close> returns; for a head that meets the assertions
  of Frame::free (FREEABLE, bound to a handle without locks) the Frame comes back FREE with
  no handle, and its former handle has lost its frame through \<open>set_frame(NULL)\<close>; with both
  lists empty it fails with OutOfFrames and the world is unchanged. In a state reached by
  the clients' operations those assertions hold: every call returns a Frame that is FREE and
  has no handle, or fails with OutOfFrames and changes nothing.
\<close>

theorem C1_get_free_frame:
  "(first (free (pool s)) = Some f \<longrightarrow>
      (\<exists>s'. BufferPool_get_free_frame s = (Inr f, s') \<and>
            first (free (pool s')) = next' (frame_heap s f) \<and>
            freeable (pool s') = freeable (pool s) \<and>
            handle_heap s' = handle_heap s \<and> events s' = events s \<and>
            (\<forall>x. state (frame_heap s' x) = state (frame_heap s x) \<and>
                 handle (frame_heap s' x) = handle (frame_heap s x)))) \<and>
   (first (free (pool s)) = None \<and> first (freeable (pool s)) = Some g \<longrightarrow>
      fst (freeable_remove s) = Some g \<and>
      BufferPool_get_free_frame s =
        (case Frame_free g (snd (freeable_remove s)) of
           (Inl e, s') \<Rightarrow> (Inl e, s')
         | (Inr u, s') \<Rightarrow> (Inr g, s'))) \<and>
   (first (free (pool s)) = None \<and> first (freeable (pool s)) = Some g \<and>
    state (frame_heap s g) = FREEABLE \<and> handle (frame_heap s g) = Some h \<and>
    locks (handle_heap s h) = 0 \<longrightarrow>
      (\<exists>s'. BufferPool_get_free_frame s = (Inr g, s') \<and>
            first (freeable (pool s')) = next' (frame_heap s g) \<and>
            free (pool s') = free (pool s) \<and>
            state (frame_heap s' g) = FREE \<and> handle (frame_heap s' g) = None \<and>
            frame (handle_heap s' h) = None \<and>
            events s' = events s @ [BroadcastHandle h])) \<and>
   (first (free (pool s)) = None \<and> first (freeable (pool s)) = None \<longrightarrow>
      BufferPool_get_free_frame s = (Inl OutOfFrames, s)) \<and>
   (list_all client_op ops \<and>
    w = run ops (BufferPool_new n mb_width mb_height (\<lambda>h. FrameHandle_new (pics h))) \<longrightarrow>
      (fst (BufferPool_get_free_frame w) = Inl OutOfFrames \<and>
       snd (BufferPool_get_free_frame w) = w) \<or>
      (\<exists>x. fst (BufferPool_get_free_frame w) = Inr x \<and>
           state (frame_heap (snd (BufferPool_get_free_frame w)) x) = FREE \<and>
           handle (frame_heap (snd (BufferPool_get_free_frame w)) x) = None))"
proof (intro conjI impI)
  assume "first (free (pool s)) = Some f"
  from free_remove_head[OF this]
  show "\<exists>s'. BufferPool_get_free_frame s = (Inr f, s') \<and>
            first (free (pool s')) = next' (frame_heap s f) \<and>
            freeable (pool s') = freeable (pool s) \<and>
            handle_heap s' = handle_heap s \<and> events s' = events s \<and>
            (\<forall>x. state (frame_heap s' x) = state (frame_heap s x) \<and>
                 handle (frame_heap s' x) = handle (frame_heap s x))"
    by (auto simp: BufferPool_get_free_frame_def)
next
  assume a: "first (free (pool s)) = None \<and> first (freeable (pool s)) = Some g"
  then obtain s1 where s1: "freeable_remove s = (Some g, s1)"
    using freeable_remove_head[of s g] by blast
  then show "fst (freeable_remove s) = Some g" by simp
  from a s1 show "BufferPool_get_free_frame s =
        (case Frame_free g (snd (freeable_remove s)) of
           (Inl e, s') \<Rightarrow> (Inl e, s')
         | (Inr u, s') \<Rightarrow> (Inr g, s'))"
    by (simp add: BufferPool_get_free_frame_def free_remove_empty)
next
  assume a: "first (free (pool s)) = None \<and> first (freeable (pool s)) = Some g \<and>
    state (frame_heap s g) = FREEABLE \<and> handle (frame_heap s g) = Some h \<and>
    locks (handle_heap s h) = 0"
  then obtain s1 where s1: "freeable_remove s = (Some g, s1)"
     "first (freeable (pool s1)) = next' (frame_heap s g)" "free (pool s1) = free (pool s)"
     "handle_heap s1 = handle_heap s" "events s1 = events s"
     "\<forall>x. state (frame_heap s1 x) = state (frame_heap s x) \<and>
                handle (frame_heap s1 x) = handle (frame_heap s x)"
    using freeable_remove_head[of s g] by blast
  with a show "\<exists>s'. BufferPool_get_free_frame s = (Inr g, s') \<and>
            first (freeable (pool s')) = next' (frame_heap s g) \<and>
            free (pool s') = free (pool s) \<and>
            state (frame_heap s' g) = FREE \<and> handle (frame_heap s' g) = None \<and>
            frame (handle_heap s' h) = None \<and>
            events s' = events s @ [BroadcastHandle h]"
    by (simp add: BufferPool_get_free_frame_def free_remove_empty frame_defs basic_defs)
next
  assume "first (free (pool s)) = None \<and> first (freeable (pool s)) = None"
  then show "BufferPool_get_free_frame s = (Inl OutOfFrames, s)"
    by (simp add: BufferPool_get_free_frame_def free_remove_empty freeable_remove_empty)
next
  assume a: "list_all client_op ops \<and>
    w = run ops (BufferPool_new n mb_width mb_height (\<lambda>h. FrameHandle_new (pics h)))"
  with inv_reachable[of ops n mb_width mb_height pics] obtain fl al where "inv_l fl al w"
    by blast
  from inv_get_free_frame[OF this]
  show "(fst (BufferPool_get_free_frame w) = Inl OutOfFrames \<and>
       snd (BufferPool_get_free_frame w) = w) \<or>
      (\<exists>x. fst (BufferPool_get_free_frame w) = Inr x \<and>
           state (frame_heap (snd (BufferPool_get_free_frame w)) x) = FREE \<and>
           handle (frame_heap (snd (BufferPool_get_free_frame w)) x) = None)"
    by blast
qed

theorem C1_get_free_frame_witness:
  "first (free (pool pool1)) = Some 0 \<and> fst (BufferPool_get_free_frame pool1) = Inr 0 \<and>
   first (free (pool released1)) = None \<and> first (freeable (pool released1)) = Some 0 \<and>
   state (frame_heap released1 0) = FREEABLE \<and> handle (frame_heap released1 0) = Some 0 \<and>
   locks (handle_heap released1 0) = 0 \<and>
   fst (freeable_remove released1) = Some 0 \<and>
   fst (BufferPool_get_free_frame released1) = Inr 0 \<and>
   state (frame_heap (snd (BufferPool_get_free_frame released1)) 0) = FREE \<and>
   frame (handle_heap (snd (BufferPool_get_free_frame released1)) 0) = None \<and>
   first (free (pool acquired1)) = None \<and> first (freeable (pool acquired1)) = None \<and>
   BufferPool_get_free_frame acquired1 = (Inl OutOfFrames, acquired1) \<and>
   list_all client_op [Acquire 0] \<and> acquired1 = run [Acquire 0] pool1"
proof -
  have p: "first (free (pool pool1)) = Some 0" by (simp add: pool1_eq)
  have r: "first (free (pool released1)) = None \<and> first (freeable (pool released1)) = Some 0 \<and>
    state (frame_heap released1 0) = FREEABLE \<and> handle (frame_heap released1 0) = Some 0 \<and>
    locks (handle_heap released1 0) = 0" by (simp add: released1_eq)
  have a: "first (free (pool acquired1)) = None \<and> first (freeable (pool acquired1)) = None"
    by (simp add: acquired1_eq)
  have w: "list_all client_op [Acquire 0]"
    "acquired1 = run [Acquire 0] (BufferPool_new 1 2 2 (\<lambda>h. FrameHandle_new ((\<lambda>h. pic0) h)))"
    "acquired1 = run [Acquire 0] pool1"
    by (simp_all add: acquired1_def run_def pool1_def handles0_def)
  note P = C1_get_free_frame[of pool1 0 0 0 "[Acquire 0]" acquired1 1 2 2 "\<lambda>h. pic0"]
  note R = C1_get_free_frame[of released1 0 0 0 "[Acquire 0]" acquired1 1 2 2 "\<lambda>h. pic0"]
  note A = C1_get_free_frame[of acquired1 0 0 0 "[Acquire 0]" acquired1 1 2 2 "\<lambda>h. pic0"]
  from P[THEN conjunct1] p have 1: "fst (BufferPool_get_free_frame pool1) = Inr 0" by auto
  from R[THEN conjunct2, THEN conjunct1] r
  have 2: "fst (freeable_remove released1) = Some 0" by simp
  from R[THEN conjunct2, THEN conjunct2, THEN conjunct1] r
  have 3: "fst (BufferPool_get_free_frame released1) = Inr 0 \<and>
    state (frame_heap (snd (BufferPool_get_free_frame released1)) 0) = FREE \<and>
    frame (handle_heap (snd (BufferPool_get_free_frame released1)) 0) = None" by auto
  from A[THEN conjunct2, THEN conjunct2, THEN conjunct2, THEN conjunct1] a
  have 4: "BufferPool_get_free_frame acquired1 = (Inl OutOfFrames, acquired1)" by simp
  from 1 2 3 4 p r a w show ?thesis by simp
qed

subsection \<open>The order of the lists\<close>

lemma Frame_free_links:
  "case Frame_free f s of
     (r, s') \<Rightarrow> (r = Inr () \<or> r = Inl AssertionFailed \<or> r = Inl NullPointer) \<and>
        pool s' = pool s \<and>
        (\<forall>x. next' (frame_heap s' x) = next' (frame_heap s x) \<and>
             prev (frame_heap s' x) = prev (frame_heap s x))"
  by (auto simp: Frame_free_def FrameHandle_set_frame_def basic_defs split: option.splits)

lemma get_free_frame_evicts_head:
  assumes "is_queue (frame_heap s) (freeable (pool s)) (y # ys)" "first (free (pool s)) = None"
  shows "case BufferPool_get_free_frame s of
           (r, s') \<Rightarrow> (r = Inr y \<or> r = Inl AssertionFailed \<or> r = Inl NullPointer) \<and>
              is_queue (frame_heap s') (freeable (pool s')) ys"
proof -
  from freeable_remove_queue[OF assms(1)] obtain s2 where
    s2: "freeable_remove s = (Some y, s2)" "is_queue (frame_heap s2) (freeable (pool s2)) ys"
    by blast
  obtain r s3 where f: "Frame_free y s2 = (r, s3)" by (cases "Frame_free y s2")
  from Frame_free_links[where f = y and s = s2] f have l: "r = Inr () \<or> r = Inl AssertionFailed \<or> r = Inl NullPointer"
    "pool s3 = pool s2"
    "\<And>x. next' (frame_heap s3 x) = next' (frame_heap s2 x) \<and> prev (frame_heap s3 x) = prev (frame_heap s2 x)"
    by auto
  from is_queue_links[of "frame_heap s3" "frame_heap s2", OF l(3)] s2(2) l(2)
  have q: "is_queue (frame_heap s3) (freeable (pool s3)) ys" by simp
  from l(1) q s2(1) f free_remove_empty[OF assms(2)] show ?thesis
    by (auto simp: BufferPool_get_free_frame_def)
qed

text \<open>
  C8. The FrameQueue is not equal to the reference queue over every sequence of \<open>add\<close> and
  \<open>pop_front\<close> operations. From the empty list, the sequence add 0, add 1, add 0, pop, pop,
  pop returns frame 0, null, null on the FrameQueue and 0, 1, 0 on the reference queue:
  the links are in the Frame, so the second \<open>add\<close> of frame 0 overwrites its \<open>next\<close> with null
  and cuts frame 1 off the list.
\<close>

theorem C8_add_twice_breaks_fifo:
  "is_queue frames0 FrameQueue_new [] \<and>
   fst (run_queue [Add 0, Add 1, Add 0, Pop, Pop, Pop] (FrameQueue_new, frames0))
     = [Some 0, None, None] \<and>
   fst (spec_queue [Add 0, Add 1, Add 0, Pop, Pop, Pop] []) = [Some 0, Some 1, Some 0]"
  by (simp add: is_queue_def queue_defs frames0_def Frame_new_def)

text \<open>
  C8, amended. Over every sequence of \<open>add\<close> and \<open>pop_front\<close> operations in which each \<open>add\<close>
  is of a frame not on the list at that time, the FrameQueue is a FIFO queue, equal to the
  reference queue: the linked structure returns what the reference queue returns and holds
  what it holds; \<open>add\<close> appends at the tail, \<open>pop_front\<close> removes and returns the head, or
  null on the empty list, and the frame removed has its \<open>prev\<close> and \<open>next\<close> pointers nulled.
  Eviction is FIFO across freeable frames: \<open>make_freeable\<close> of a frame not on the freeable
  list appends it at the tail, and \<open>get_free_frame\<close> on an empty free list takes the head of
  the freeable list, which it returns unless \<open>Frame::free\<close> fails on it, and leaves the
  rest of the list in its order.
\<close>

theorem C8_queue_is_fifo:
  assumes "is_queue fr q xs" and "adds_fresh ops xs"
  shows "(case run_queue ops (q, fr) of
            (rs, q', fr') \<Rightarrow> rs = fst (spec_queue ops xs) \<and> is_queue fr' q' (snd (spec_queue ops xs))) \<and>
         (case FrameQueue_remove (q, fr) of
            (r, q', fr') \<Rightarrow> r = (if xs = [] then None else Some (hd xs)) \<and>
               is_queue fr' q' (tl xs) \<and>
               (\<forall>x. r = Some x \<longrightarrow> prev (fr' x) = None \<and> next' (fr' x) = None)) \<and>
         (\<forall>f. f \<notin> set xs \<longrightarrow> (case FrameQueue_add f (q, fr) of (q', fr') \<Rightarrow> is_queue fr' q' (xs @ [f]))) \<and>
         (is_queue (frame_heap s) (freeable (pool s)) ys \<and> g \<notin> set ys \<longrightarrow>
            is_queue (frame_heap (BufferPool_make_freeable g s))
              (freeable (pool (BufferPool_make_freeable g s))) (ys @ [g])) \<and>
         (is_queue (frame_heap s) (freeable (pool s)) (y # ys) \<and> first (free (pool s)) = None \<longrightarrow>
            (case BufferPool_get_free_frame s of
               (r, s') \<Rightarrow> (r = Inr y \<or> r = Inl AssertionFailed \<or> r = Inl NullPointer) \<and>
                  is_queue (frame_heap s') (freeable (pool s')) ys))"
proof (intro conjI)
  show "case run_queue ops (q, fr) of
            (rs, q', fr') \<Rightarrow> rs = fst (spec_queue ops xs) \<and> is_queue fr' q' (snd (spec_queue ops xs))"
    using run_queue_refines[OF assms] by (auto split: prod.splits)
  show "case FrameQueue_remove (q, fr) of
            (r, q', fr') \<Rightarrow> r = (if xs = [] then None else Some (hd xs)) \<and>
               is_queue fr' q' (tl xs) \<and>
               (\<forall>x. r = Some x \<longrightarrow> prev (fr' x) = None \<and> next' (fr' x) = None)"
  proof (cases xs)
    case Nil
    with assms(1) have "first q = None" by (simp add: is_queue_def)
    with Nil assms(1) show ?thesis by (simp add: remove_empty)
  next
    case (Cons x xs')
    with assms(1) show ?thesis
      by (auto split: prod.splits dest: remove_queue remove_nulls)
  qed
  show "\<forall>f. f \<notin> set xs \<longrightarrow> (case FrameQueue_add f (q, fr) of (q', fr') \<Rightarrow> is_queue fr' q' (xs @ [f]))"
    using assms(1) by (auto split: prod.splits intro: add_queue)
  show "is_queue (frame_heap s) (freeable (pool s)) ys \<and> g \<notin> set ys \<longrightarrow>
            is_queue (frame_heap (BufferPool_make_freeable g s))
              (freeable (pool (BufferPool_make_freeable g s))) (ys @ [g])"
    unfolding BufferPool_make_freeable_def using freeable_add_queue by blast
  show "is_queue (frame_heap s) (freeable (pool s)) (y # ys) \<and> first (free (pool s)) = None \<longrightarrow>
            (case BufferPool_get_free_frame s of
               (r, s') \<Rightarrow> (r = Inr y \<or> r = Inl AssertionFailed \<or> r = Inl NullPointer) \<and>
                  is_queue (frame_heap s') (freeable (pool s')) ys)"
  proof
    assume "is_queue (frame_heap s) (freeable (pool s)) (y # ys) \<and> first (free (pool s)) = None"
    then show "case BufferPool_get_free_frame s of
               (r, s') \<Rightarrow> (r = Inr y \<or> r = Inl AssertionFailed \<or> r = Inl NullPointer) \<and>
                  is_queue (frame_heap s') (freeable (pool s')) ys"
      using get_free_frame_evicts_head[of s y ys] by simp
  qed
qed

lemma released1_queues:
  "is_queue (frame_heap rendered1) (freeable (pool rendered1)) []"
  "is_queue (frame_heap released1) (freeable (pool released1)) [0]"
  "first (free (pool released1)) = None"
  by (simp_all add: rendered1_eq released1_eq is_queue_def FrameQueue_new_def Frame_new_def)

theorem C8_queue_is_fifo_witness:
  "is_queue frames0 FrameQueue_new [] \<and> adds_fresh [Add 0, Add 1, Pop, Add 2, Pop, Pop, Pop] [] \<and>
   fst (run_queue [Add 0, Add 1, Pop, Add 2, Pop, Pop, Pop] (FrameQueue_new, frames0))
     = [Some 0, Some 1, Some 2, None] \<and>
   is_queue (frame_heap rendered1) (freeable (pool rendered1)) [] \<and> 0 \<notin> set ([] :: nat list) \<and>
   is_queue (frame_heap (BufferPool_make_freeable 0 rendered1))
     (freeable (pool (BufferPool_make_freeable 0 rendered1))) [0] \<and>
   is_queue (frame_heap released1) (freeable (pool released1)) [0] \<and>
   first (free (pool released1)) = None \<and>
   fst (BufferPool_get_free_frame released1) = Inr 0 \<and>
   is_queue (frame_heap (snd (BufferPool_get_free_frame released1)))
     (freeable (pool (snd (BufferPool_get_free_frame released1)))) []"
proof -
  have a: "is_queue frames0 FrameQueue_new []" by (simp add: is_queue_def FrameQueue_new_def)
  have b: "adds_fresh [Add 0, Add 1, Pop, Add 2, Pop, Pop, Pop] []" by simp
  have c: "fst (BufferPool_get_free_frame released1) = Inr 0"
    by (simp add: released1_eq pool_defs world_defs queue_defs Frame_free_def FrameHandle_set_frame_def
        Frame_new_def handles0_def FrameHandle_new_def)
  from C8_queue_is_fifo[OF a b, where s = rendered1 and ys = "[]" and g = 0 and y = 0]
       C8_queue_is_fifo[OF a b, where s = released1 and ys = "[]" and g = 0 and y = 0]
       a b c released1_queues
  show ?thesis by (simp add: case_prod_beta)
qed

subsection \<open>The key handler\<close>

text \<open>
  C10. For every key other than \<open>'f'\<close>, \<open>'q'\<close>, \<open>XK_Left\<close> and \<open>XK_Right\<close>, XKey::execute leaves
  every field of the DecoderState as it was and only prints the diagnostic; \<open>'q'\<close> and
  DecoderShutDown::execute set \<open>live\<close> to false and change no other field; \<open>XK_Left\<close>
  decrements and \<open>XK_Right\<close> increments \<open>current_picture\<close> and change no other field.
\<close>

theorem C10_key_frame_effect:
  "(key \<noteq> 102 \<and> key \<noteq> 113 \<and> key \<noteq> XK_Left \<and> key \<noteq> XK_Right \<longrightarrow>
      XKey_execute enq key st = (st, [key])) \<and>
   XKey_execute enq 113 st = (st\<lparr>live := False\<rparr>, []) \<and>
   DecoderShutDown_execute st = st\<lparr>live := False\<rparr> \<and>
   XKey_execute enq XK_Left st = (st\<lparr>current_picture := current_picture st - 1\<rparr>, []) \<and>
   XKey_execute enq XK_Right st = (st\<lparr>current_picture := current_picture st + 1\<rparr>, [])"
  by (simp add: XKey_execute_def DecoderShutDown_execute_def XK_Left_def XK_Right_def)

theorem C10_key_frame_effect_witness:
  "(97::int) \<noteq> 102 \<and> (97::int) \<noteq> 113 \<and> 97 \<noteq> XK_Left \<and> 97 \<noteq> XK_Right \<and>
   XKey_execute (#) 97
     \<lparr>fullscreen = False, live = True, current_picture = (7 :: 32 word), oglq = []\<rparr>
   = (\<lparr>fullscreen = False, live = True, current_picture = 7, oglq = []\<rparr>, [97])"
  using C10_key_frame_effect
    [of 97 "(#)" "\<lparr>fullscreen = False, live = True, current_picture = (7 :: 32 word), oglq = []\<rparr>"]
  by (simp add: XK_Left_def XK_Right_def)

end
